theory Spec2Isabelle
  imports
    Main
    "HOL-Library.Word"
    "HOL-Library.Multiset"
    "HOL-Library.Sublist"
    "HOL-Library.Char_ord"
    "HOL-Library.List_Lexorder"
begin

section \<open>spacehogs: a directory-size analyser\<close>

text \<open>
  A shallow embedding of \<^verbatim>\<open>spacehogs.go\<close>.  Go's \<^verbatim>\<open>string\<close> is a byte sequence and is
  modelled as \<^typ>\<open>string\<close> (a list of 8-bit characters); \<^verbatim>\<open>uint64\<close> is \<^typ>\<open>64 word\<close>, whose
  arithmetic wraps around exactly as Go's does.  \<^verbatim>\<open>int64\<close> values are 64-bit words as well;
  the conversion \<^verbatim>\<open>uint64(x)\<close> of an \<^verbatim>\<open>int64\<close> keeps the bit pattern, so it is the identity
  on the model's words.
\<close>

type_synonym uint64 = "64 word"
type_synonym int64 = "64 word"

subsection \<open>Errors\<close>

text \<open>
  Every \<^verbatim>\<open>fmt.Errorf\<close> of the program and the errors the \<^verbatim>\<open>flag\<close> package returns are
  constructors of one datatype; \<open>Error\<close> renders the message as \<^verbatim>\<open>err.Error()\<close> does.
\<close>

datatype error =
    InvalidSizeFormat string
  | InvalidSizeNumber string
  | FlagBadSyntax string
  | FlagNotDefined string
  | FlagNeedsArgument string
  | FlagHelp
  | InvalidNumberOfArguments
  | ErrorWrap error
  | ErrorAccessing string string
  | NotADirectory string

fun Error :: "error \<Rightarrow> string" where
  "Error (InvalidSizeFormat s) = ''invalid size format: '' @ s"
| "Error (InvalidSizeNumber s) = ''invalid size number: '' @ s"
| "Error (FlagBadSyntax s) = ''bad flag syntax: '' @ s"
| "Error (FlagNotDefined s) = ''flag provided but not defined: -'' @ s"
| "Error (FlagNeedsArgument s) = ''flag needs an argument: -'' @ s"
| "Error FlagHelp = ''flag: help requested''"
| "Error InvalidNumberOfArguments = ''invalid number of arguments''"
| "Error (ErrorWrap e) = ''error: '' @ Error e"
| "Error (ErrorAccessing p e) = ''error accessing '' @ [CHR 0x27] @ p @ [CHR 0x27] @ '': '' @ e"
| "Error (NotADirectory p) = ''error: '' @ [CHR 0x27] @ p @ [CHR 0x27] @ '' is not a directory''"

subsection \<open>The library functions \<open>parseSize\<close> calls\<close>

text \<open>
  \<^verbatim>\<open>strings.TrimSpace\<close> removes the leading and trailing runes that \<^verbatim>\<open>unicode.IsSpace\<close>
  accepts.  On the bytes of a string these are the UTF-8 encodings below; a byte that does
  not start one of them (an invalid byte included, which decodes to U+FFFD) stops the trim.
\<close>

definition unicode_space_encodings :: "string list" where
  "unicode_space_encodings =
     [[CHR 0x09], [CHR 0x0A], [CHR 0x0B], [CHR 0x0C], [CHR 0x0D], [CHR 0x20],
      [CHR 0xC2, CHR 0x85], [CHR 0xC2, CHR 0xA0],
      [CHR 0xE1, CHR 0x9A, CHR 0x80],
      [CHR 0xE2, CHR 0x80, CHR 0x80], [CHR 0xE2, CHR 0x80, CHR 0x81],
      [CHR 0xE2, CHR 0x80, CHR 0x82], [CHR 0xE2, CHR 0x80, CHR 0x83],
      [CHR 0xE2, CHR 0x80, CHR 0x84], [CHR 0xE2, CHR 0x80, CHR 0x85],
      [CHR 0xE2, CHR 0x80, CHR 0x86], [CHR 0xE2, CHR 0x80, CHR 0x87],
      [CHR 0xE2, CHR 0x80, CHR 0x88], [CHR 0xE2, CHR 0x80, CHR 0x89],
      [CHR 0xE2, CHR 0x80, CHR 0x8A],
      [CHR 0xE2, CHR 0x80, CHR 0xA8], [CHR 0xE2, CHR 0x80, CHR 0xA9],
      [CHR 0xE2, CHR 0x80, CHR 0xAF],
      [CHR 0xE2, CHR 0x81, CHR 0x9F],
      [CHR 0xE3, CHR 0x80, CHR 0x80]]"

function TrimLeftOf :: "string list \<Rightarrow> string \<Rightarrow> string" where
  "TrimLeftOf encs s =
     (case find (\<lambda>w. w \<noteq> [] \<and> prefix w s) encs of
        None \<Rightarrow> s
      | Some w \<Rightarrow> TrimLeftOf encs (drop (length w) s))"
  by pat_completeness auto
termination
proof (relation "measure (\<lambda>(encs, s). length s)")
  show "wf (measure (\<lambda>(encs, s). length s))" by simp
next
  fix encs :: "string list" and s w :: string
  assume "find (\<lambda>w. w \<noteq> [] \<and> prefix w s) encs = Some w"
  then have "w \<noteq> []" and "prefix w s"
    by (auto simp: find_Some_iff)
  then have "s \<noteq> []" by auto
  with \<open>w \<noteq> []\<close> show "((encs, drop (length w) s), (encs, s)) \<in> measure (\<lambda>(encs, s). length s)"
    by simp
qed

declare TrimLeftOf.simps [simp del]

definition TrimSpace :: "string \<Rightarrow> string" where
  "TrimSpace s =
     rev (TrimLeftOf (map rev unicode_space_encodings)
            (rev (TrimLeftOf unicode_space_encodings s)))"

text \<open>
  The pattern \<^verbatim>\<open>(?i)^([\d\.]+)\s*([kmgtp]?b?)$\<close>.  Its three character classes are
  pairwise disjoint, so the only way to match is the longest run of digits and dots, the
  longest run of \<^verbatim>\<open>\s\<close> (tab, newline, form feed, carriage return, space: no vertical tab),
  and the rest as the unit group.  Under \<^verbatim>\<open>(?i)\<close> Go folds case by Unicode's simple folding,
  where \<^verbatim>\<open>k\<close> also matches the Kelvin sign U+212A (the bytes E2 84 AA).
  \<open>FindStringSubmatch\<close> returns the two groups when the text matches (Go's slice of
  length 3) and \<open>None\<close> when it does not (Go's \<^verbatim>\<open>nil\<close>).
\<close>

definition regex_digit_or_dot :: "char \<Rightarrow> bool" where
  "regex_digit_or_dot c = (c \<in> set ''0123456789.'')"

definition regex_space :: "char \<Rightarrow> bool" where
  "regex_space c = (c \<in> set [CHR 0x09, CHR 0x0A, CHR 0x0C, CHR 0x0D, CHR 0x20])"

definition kelvin_sign :: string where
  "kelvin_sign = [CHR 0xE2, CHR 0x84, CHR 0xAA]"

definition regex_unit_letters :: "string list" where
  "regex_unit_letters =
     [''k'', ''K'', kelvin_sign, ''m'', ''M'', ''g'', ''G'', ''t'', ''T'', ''p'', ''P'']"

definition regex_unit_group :: "string list" where
  "regex_unit_group =
     concat (map (\<lambda>u. [u, u @ ''b'', u @ ''B'']) ('''' # regex_unit_letters))"

definition FindStringSubmatch :: "string \<Rightarrow> (string \<times> string) option" where
  "FindStringSubmatch s =
     (let num = takeWhile regex_digit_or_dot s;
          rest = dropWhile regex_space (dropWhile regex_digit_or_dot s)
      in if num \<noteq> [] \<and> rest \<in> set regex_unit_group then Some (num, rest) else None)"

text \<open>
  \<^verbatim>\<open>float64\<close>.  The program only ever holds non-negative values: \<open>Finite m e\<close> is the value
  \<open>m * 2 ^ e\<close>, \<open>PosInf\<close> is +Inf.  \<open>float64_round n d\<close> is the float64 nearest to the
  fraction \<open>n / d\<close>, ties to even (IEEE 754 binary64: 53 significant bits, smallest unit
  \<open>2 ^ -1074\<close>), and +Inf when the rounded value reaches \<open>2 ^ 1024\<close>.
\<close>

datatype float64 = Finite nat int | PosInf

text \<open>
  \<open>bit_length n\<close> is the number of binary digits of \<open>n\<close>, and \<open>ilog2_ratio n d\<close> the
  integer \<open>k\<close> with \<open>2 ^ k \<le> n / d < 2 ^ (k + 1)\<close>.
\<close>

function bit_length :: "nat \<Rightarrow> nat" where
  "bit_length n = (if n = 0 then 0 else Suc (bit_length (n div 2)))"
  by pat_completeness auto
termination
  by (relation "measure (\<lambda>n. n)") auto

declare bit_length.simps [simp del]

definition ilog2_ratio :: "nat \<Rightarrow> nat \<Rightarrow> int" where
  "ilog2_ratio n d =
     (let k = int (bit_length n) - int (bit_length d)
      in if (if 0 \<le> k then d * 2 ^ nat k \<le> n else d \<le> n * 2 ^ nat (- k)) then k else k - 1)"

definition round_half_even :: "nat \<Rightarrow> nat \<Rightarrow> nat" where
  "round_half_even n d =
     (let q = n div d; r = n mod d
      in if 2 * r < d then q else if d < 2 * r then q + 1 else if even q then q else q + 1)"

definition float64_round :: "nat \<Rightarrow> nat \<Rightarrow> float64" where
  "float64_round n d =
     (if n = 0 then Finite 0 0
      else
        let e = max (ilog2_ratio n d) (- 1022) - 52;
            m = (if 0 \<le> e then round_half_even n (d * 2 ^ nat e)
                 else round_half_even (n * 2 ^ nat (- e)) d)
        in if 971 < e \<or> (e = 971 \<and> 2 ^ 53 \<le> m) then PosInf else Finite m e)"

text \<open>
  \<open>float64_ratio\<close> rounds the quotient of two scaled integers; multiplication and division
  of finite values are the correctly rounded exact results.
\<close>

definition float64_ratio :: "nat \<Rightarrow> int \<Rightarrow> nat \<Rightarrow> int \<Rightarrow> float64" where
  "float64_ratio m1 e1 m2 e2 =
     (if e2 \<le> e1 then float64_round (m1 * 2 ^ nat (e1 - e2)) m2
      else float64_round m1 (m2 * 2 ^ nat (e2 - e1)))"

fun float64_mul_nat :: "float64 \<Rightarrow> nat \<Rightarrow> float64" where
  "float64_mul_nat (Finite m e) c = float64_ratio (m * c) e 1 0"
| "float64_mul_nat PosInf c = PosInf"

definition float64_of_nat :: "nat \<Rightarrow> float64" where
  "float64_of_nat n = float64_round n 1"

text \<open>
  \<open>float64_trunc\<close> is the integer part of a finite value.  Go's conversion \<^verbatim>\<open>uint64(f)\<close>
  discards the fraction when the result fits; when it does not (also for +Inf) the language
  leaves the result to the implementation, which the parameter \<open>impl\<close> stands for.
\<close>

definition float64_trunc :: "nat \<Rightarrow> int \<Rightarrow> nat" where
  "float64_trunc m e = (if 0 \<le> e then m * 2 ^ nat e else m div 2 ^ nat (- e))"

fun uint64_of_float64 :: "(float64 \<Rightarrow> uint64) \<Rightarrow> float64 \<Rightarrow> uint64" where
  "uint64_of_float64 impl (Finite m e) =
     (if float64_trunc m e < 2 ^ 64 then word_of_nat (float64_trunc m e) else impl (Finite m e))"
| "uint64_of_float64 impl PosInf = impl PosInf"

text \<open>
  \<^verbatim>\<open>strconv.ParseFloat(s, 64)\<close> on a string of digits and dots (all the pattern's first
  group can hold): a syntax error unless there is at most one dot and at least one digit;
  otherwise the correctly rounded value, or a range error when that is +Inf.  \<open>None\<close> is
  the error.
\<close>

definition is_digit :: "char \<Rightarrow> bool" where
  "is_digit c = (c \<in> set ''0123456789'')"

definition digit_value :: "char \<Rightarrow> nat" where
  "digit_value c = of_char c - 48"

definition digits_value :: "string \<Rightarrow> nat" where
  "digits_value ds = foldl (\<lambda>a c. 10 * a + digit_value c) 0 ds"

definition decimal_syntax :: "string \<Rightarrow> bool" where
  "decimal_syntax s =
     (list_all regex_digit_or_dot s \<and> length (filter (\<lambda>c. c = CHR ''.'') s) \<le> 1
      \<and> list_ex is_digit s)"

definition decimal_mantissa :: "string \<Rightarrow> nat" where
  "decimal_mantissa s = digits_value (filter is_digit s)"

definition decimal_scale :: "string \<Rightarrow> nat" where
  "decimal_scale s = length (filter is_digit (dropWhile is_digit s))"

definition ParseFloat :: "string \<Rightarrow> float64 option" where
  "ParseFloat s =
     (if decimal_syntax s then
        (case float64_round (decimal_mantissa s) (10 ^ decimal_scale s) of
           PosInf \<Rightarrow> None
         | Finite m e \<Rightarrow> Some (Finite m e))
      else None)"

text \<open>
  \<^verbatim>\<open>strings.ToUpper\<close>, on the strings the unit group can hold: ASCII letters are mapped to
  upper case and the Kelvin sign, an upper-case letter already, is kept.
\<close>

definition ToUpper :: "string \<Rightarrow> string" where
  "ToUpper s =
     map (\<lambda>c. case map_of (zip ''abcdefghijklmnopqrstuvwxyz'' ''ABCDEFGHIJKLMNOPQRSTUVWXYZ'') c of
                None \<Rightarrow> c
              | Some u \<Rightarrow> u) s"

subsection \<open>\<open>parseSize\<close>\<close>

definition parseSize :: "(float64 \<Rightarrow> uint64) \<Rightarrow> string \<Rightarrow> error + uint64" where
  "parseSize impl sizeStr =
     (case FindStringSubmatch (TrimSpace sizeStr) of
        None \<Rightarrow> Inl (InvalidSizeFormat sizeStr)
      | Some (num, u) \<Rightarrow>
          (case ParseFloat num of
             None \<Rightarrow> Inl (InvalidSizeNumber num)
           | Some size0 \<Rightarrow>
               (let unit = ToUpper u;
                    size1 =
                      (if prefix ''T'' unit then float64_mul_nat size0 (1024 * 1024 * 1024 * 1024)
                       else if prefix ''G'' unit then float64_mul_nat size0 (1024 * 1024 * 1024)
                       else if prefix ''M'' unit then float64_mul_nat size0 (1024 * 1024)
                       else if prefix ''K'' unit then float64_mul_nat size0 1024
                       else size0)
                in Inr (uint64_of_float64 impl size1))))"

subsection \<open>\<open>humanReadableSize\<close>\<close>

text \<open>
  A run-time panic of the Go program is a value of the model.
\<close>

datatype panic = IndexOutOfRange int nat | SliceBoundsOutOfRange nat nat

text \<open>\<^verbatim>\<open>%d\<close> of an unsigned number.\<close>

function show_nat :: "nat \<Rightarrow> string" where
  "show_nat n =
     (if n < 10 then [''0123456789'' ! n]
      else show_nat (n div 10) @ [''0123456789'' ! (n mod 10)])"
  by pat_completeness auto
termination
  by (relation "measure (\<lambda>n. n)") auto

declare show_nat.simps [simp del]

text \<open>
  \<^verbatim>\<open>%.2f\<close> of a non-negative float64: the exact binary value rounded to two decimals, ties
  to even, as \<^verbatim>\<open>strconv\<close> does.
\<close>

definition hundredths :: "nat \<Rightarrow> int \<Rightarrow> nat" where
  "hundredths m e =
     (if 0 \<le> e then m * 100 * 2 ^ nat e else round_half_even (m * 100) (2 ^ nat (- e)))"

fun format_2f :: "float64 \<Rightarrow> string" where
  "format_2f (Finite m e) =
     (let h = hundredths m e
      in show_nat (h div 100) @ ''.'' @ show_nat (h div 10 mod 10) @ show_nat (h mod 10))"
| "format_2f PosInf = ''+Inf''"

text \<open>
  Division of float64 values; a positive value divided by zero is +Inf.  The conversion
  \<^verbatim>\<open>float64(div)\<close> of the \<^verbatim>\<open>int64\<close> divisor is modelled on its non-negative values, which
  are all the loop below produces (lemma \<open>hr_loop_div\<close>).
\<close>

fun float64_div :: "float64 \<Rightarrow> float64 \<Rightarrow> float64" where
  "float64_div (Finite m1 e1) (Finite m2 e2) =
     (if m2 = 0 then PosInf else float64_ratio m1 e1 m2 e2)"
| "float64_div (Finite m1 e1) PosInf = Finite 0 0"
| "float64_div PosInf y = PosInf"

definition float64_of_uint64 :: "uint64 \<Rightarrow> float64" where
  "float64_of_uint64 x = float64_of_nat (unat x)"

definition float64_of_int64 :: "int64 \<Rightarrow> float64" where
  "float64_of_int64 x = float64_of_nat (nat (sint x))"

text \<open>
  The loop \<^verbatim>\<open>for n := size / unit; n >= unit; n /= unit { div *= unit; exp++ }\<close>, with
  \<open>n\<close> a \<^verbatim>\<open>uint64\<close>, \<open>div\<close> an \<^verbatim>\<open>int64\<close> (the multiplication wraps) and \<open>exp\<close> an \<^verbatim>\<open>int\<close>.
  It returns the final \<open>(div, exp)\<close>.
\<close>

function hr_loop :: "uint64 \<Rightarrow> int64 \<Rightarrow> int \<Rightarrow> int64 \<times> int" where
  "hr_loop n dv ex = (if 1024 \<le> n then hr_loop (n div 1024) (dv * 1024) (ex + 1) else (dv, ex))"
  by pat_completeness auto
termination
proof (relation "measure (\<lambda>(n, dv, ex). unat n)")
  show "wf (measure (\<lambda>(n, dv, ex). unat n))" by simp
next
  fix n dv :: "64 word" and ex :: int
  assume "1024 \<le> n"
  then have "1024 \<le> unat n"
    by (simp add: word_le_nat_alt)
  then have "unat n div 1024 < unat n"
    by simp
  then show "((n div 1024, dv * 1024, ex + 1), (n, dv, ex)) \<in> measure (\<lambda>(n, dv, ex). unat n)"
    by (simp add: unat_div)
qed

declare hr_loop.simps [simp del]

text \<open>Indexing a string: Go panics when the index is out of range.\<close>

definition string_index :: "string \<Rightarrow> int \<Rightarrow> panic + char" where
  "string_index s i =
     (if 0 \<le> i \<and> nat i < length s then Inr (s ! nat i) else Inl (IndexOutOfRange i (length s)))"

definition humanReadableSize :: "uint64 \<Rightarrow> panic + string" where
  "humanReadableSize sz =
     (if sz < 1024 then Inr (show_nat (unat sz) @ '' B'')
      else
        (case hr_loop (sz div 1024) 1024 0 of
           (dv, ex) \<Rightarrow>
             (case string_index ''KMGTPE'' ex of
                Inl p \<Rightarrow> Inl p
              | Inr c \<Rightarrow>
                  Inr (format_2f (float64_div (float64_of_uint64 sz) (float64_of_int64 dv))
                       @ '' '' @ [c] @ ''iB''))))"

subsection \<open>Paths\<close>

text \<open>
  \<^verbatim>\<open>path/filepath\<close> on Unix.  \<open>Clean\<close> works on the components between slashes: empty
  components and \<^verbatim>\<open>.\<close> are dropped, \<^verbatim>\<open>..\<close> removes the component before it, is dropped at
  the root and is kept at the start of a relative path.  \<open>Join\<close> is \<^verbatim>\<open>filepath.Join\<close> of
  two elements and \<open>Base\<close> is \<^verbatim>\<open>filepath.Base\<close>.
\<close>

fun splitOn :: "char \<Rightarrow> string \<Rightarrow> string list" where
  "splitOn c [] = [[]]"
| "splitOn c (x # xs) =
     (if x = c then [] # splitOn c xs
      else (case splitOn c xs of [] \<Rightarrow> [[x]] | w # ws \<Rightarrow> (x # w) # ws))"

fun join_with :: "string \<Rightarrow> string list \<Rightarrow> string" where
  "join_with sep [] = []"
| "join_with sep [w] = w"
| "join_with sep (w # v # ws) = w @ sep @ join_with sep (v # ws)"

definition clean_step :: "bool \<Rightarrow> string list \<Rightarrow> string \<Rightarrow> string list" where
  "clean_step rooted out c =
     (if c = [] \<or> c = ''.'' then out
      else if c = ''..'' then
        (if out \<noteq> [] \<and> last out \<noteq> ''..'' then butlast out
         else if \<not> rooted then out @ [''..'']
         else out)
      else out @ [c])"

definition Clean :: "string \<Rightarrow> string" where
  "Clean path =
     (if path = [] then ''.''
      else
        (let rooted = (hd path = CHR ''/'');
             out = foldl (clean_step rooted) [] (splitOn (CHR ''/'') path);
             s = (if rooted then ''/'' else []) @ join_with ''/'' out
         in if s = [] then ''.'' else s))"

definition Join :: "string \<Rightarrow> string \<Rightarrow> string" where
  "Join a b =
     (if a \<noteq> [] then Clean (a @ ''/'' @ b) else if b \<noteq> [] then Clean b else [])"

definition Base :: "string \<Rightarrow> string" where
  "Base path =
     (if path = [] then ''.''
      else
        (let p = rev (dropWhile (\<lambda>c. c = CHR ''/'') (rev path));
             b = rev (takeWhile (\<lambda>c. c \<noteq> CHR ''/'') (rev p))
         in if b = [] then ''/'' else b))"

subsection \<open>The file system and the result collection\<close>

text \<open>
  \<open>FileInfo\<close> is the program's struct.  A directory is what \<^verbatim>\<open>os.ReadDir\<close> returns for it:
  an error (its text) or the entries in the order returned.  An entry for which
  \<^verbatim>\<open>entry.IsDir()\<close> holds is a \<open>DirEnt\<close> with its name and the directory found under it; any
  other entry is a \<open>FileEnt\<close> with its name and what \<^verbatim>\<open>entry.Info()\<close> returns: an error or
  the \<^verbatim>\<open>int64\<close> of \<^verbatim>\<open>info.Size()\<close>.  The tree is finite and does not change during a walk.
\<close>

record FileInfo =
  Path :: string
  Size :: uint64
  IsDir :: bool

datatype dirnode = ReadDir "string + dirent list"
  and dirent = FileEnt string "string + int64" | DirEnt string dirnode

fun Name :: "dirent \<Rightarrow> string" where
  "Name (FileEnt name info) = name"
| "Name (DirEnt name d) = name"

text \<open>
  The effects of a walk on the rest of the program, in the order they happen:
  \<open>AddResult path size isDir\<close> is a call of \<^verbatim>\<open>addResult\<close>, which appends to the global
  \<^verbatim>\<open>results\<close> under the mutex, and \<open>Stderr s\<close> is an \<^verbatim>\<open>fmt.Fprintf(os.Stderr, ...)\<close>.
\<close>

datatype event = AddResult string uint64 bool | Stderr string

definition read_dir_message :: "string \<Rightarrow> string \<Rightarrow> string" where
  "read_dir_message path err = ''Error reading directory '' @ path @ '': '' @ err @ [CHR 0x0A]"

definition info_message :: "string \<Rightarrow> string \<Rightarrow> string" where
  "info_message fullPath err = ''Error getting info for '' @ fullPath @ '': '' @ err @ [CHR 0x0A]"

subsection \<open>\<open>walkDirRecursive\<close>\<close>

text \<open>
  \<open>walkDirRecursive path threshold excludeSet d\<close> returns the total and the effects of
  the call on the directory \<open>d\<close> found at \<open>path\<close>.  \<open>walk_entries\<close> is the loop over the
  entries, with the loop's variables \<open>totalSize\<close> and the contents of \<open>sizeChannel\<close>; the
  channel has room for every entry, so a send never blocks.  In this function every
  goroutine runs to its end at the point where it is started, which is one of the
  schedules of the program; \<open>walk_exec\<close> below has them all.
\<close>

fun walkDirRecursive :: "string \<Rightarrow> uint64 \<Rightarrow> string set \<Rightarrow> dirnode \<Rightarrow> uint64 \<times> event list"
  and walk_entries ::
    "string \<Rightarrow> uint64 \<Rightarrow> string set \<Rightarrow> dirent list \<Rightarrow> uint64 \<Rightarrow> uint64 list
       \<Rightarrow> uint64 \<times> uint64 list \<times> event list"
where
  "walkDirRecursive path threshold excludeSet (ReadDir (Inl err)) =
     (0, [Stderr (read_dir_message path err)])"
| "walkDirRecursive path threshold excludeSet (ReadDir (Inr entries)) =
     (case walk_entries path threshold excludeSet entries 0 [] of
        (totalSize, sizeChannel, evs) \<Rightarrow> (foldl (+) totalSize sizeChannel, evs))"
| "walk_entries path threshold excludeSet [] totalSize sizeChannel =
     (totalSize, sizeChannel, [])"
| "walk_entries path threshold excludeSet (entry # entries) totalSize sizeChannel =
     (if Name entry \<in> excludeSet
      then walk_entries path threshold excludeSet entries totalSize sizeChannel
      else
        (case entry of
           DirEnt name d \<Rightarrow>
             (case walkDirRecursive (Join path name) threshold excludeSet d of
                (subdirSize, evs1) \<Rightarrow>
                  (case walk_entries path threshold excludeSet entries totalSize
                          (sizeChannel @ [subdirSize]) of
                     (t, c, evs2) \<Rightarrow>
                       (t, c,
                        evs1
                        @ (if threshold \<le> subdirSize
                           then [AddResult (Join path name) subdirSize True] else [])
                        @ evs2)))
         | FileEnt name (Inl err) \<Rightarrow>
             (case walk_entries path threshold excludeSet entries totalSize sizeChannel of
                (t, c, evs) \<Rightarrow> (t, c, Stderr (info_message (Join path name) err) # evs))
         | FileEnt name (Inr fileSize) \<Rightarrow>
             (case walk_entries path threshold excludeSet entries (totalSize + fileSize)
                     sizeChannel of
                (t, c, evs) \<Rightarrow>
                  (t, c,
                   (if threshold \<le> fileSize
                    then [AddResult (Join path name) fileSize False] else [])
                   @ evs))))"

text \<open>
  All schedules.  A started goroutine is the effects it is still to perform and the size it
  then sends on \<open>sizeChannel\<close>.  \<open>loop_exec path threshold excludeSet entries gs totalSize
  sizeChannel ret evs\<close> says: with \<open>entries\<close> still to visit, the goroutines \<open>gs\<close>
  running and the two variables as given, the call can go on to perform the effects
  \<open>evs\<close>, in this order, and return \<open>ret\<close>.  At each point either the loop visits its
  next entry or one of the running goroutines takes its next step; the loop over
  \<open>sizeChannel\<close> starts when no goroutine is left (\<^verbatim>\<open>wg.Wait()\<close>).
\<close>

type_synonym goroutine = "event list \<times> uint64"

inductive walk_exec ::
    "string \<Rightarrow> uint64 \<Rightarrow> string set \<Rightarrow> dirnode \<Rightarrow> uint64 \<Rightarrow> event list \<Rightarrow> bool"
  and loop_exec ::
    "string \<Rightarrow> uint64 \<Rightarrow> string set \<Rightarrow> dirent list \<Rightarrow> goroutine list \<Rightarrow> uint64
       \<Rightarrow> uint64 list \<Rightarrow> uint64 \<Rightarrow> event list \<Rightarrow> bool"
where
  readdir_error:
    "walk_exec path threshold excludeSet (ReadDir (Inl err)) 0
       [Stderr (read_dir_message path err)]"
| readdir_ok:
    "loop_exec path threshold excludeSet entries [] 0 [] ret evs
     \<Longrightarrow> walk_exec path threshold excludeSet (ReadDir (Inr entries)) ret evs"
| loop_excluded:
    "Name entry \<in> excludeSet
     \<Longrightarrow> loop_exec path threshold excludeSet entries gs totalSize sizeChannel ret evs
     \<Longrightarrow> loop_exec path threshold excludeSet (entry # entries) gs totalSize sizeChannel
           ret evs"
| loop_dir:
    "name \<notin> excludeSet
     \<Longrightarrow> walk_exec (Join path name) threshold excludeSet d subdirSize evs1
     \<Longrightarrow> loop_exec path threshold excludeSet entries
           (gs @ [(evs1 @ (if threshold \<le> subdirSize
                           then [AddResult (Join path name) subdirSize True] else []),
                   subdirSize)])
           totalSize sizeChannel ret evs
     \<Longrightarrow> loop_exec path threshold excludeSet (DirEnt name d # entries) gs totalSize
           sizeChannel ret evs"
| loop_file_error:
    "name \<notin> excludeSet
     \<Longrightarrow> loop_exec path threshold excludeSet entries gs totalSize sizeChannel ret evs
     \<Longrightarrow> loop_exec path threshold excludeSet (FileEnt name (Inl err) # entries) gs totalSize
           sizeChannel ret (Stderr (info_message (Join path name) err) # evs)"
| loop_file:
    "name \<notin> excludeSet
     \<Longrightarrow> loop_exec path threshold excludeSet entries gs (totalSize + fileSize) sizeChannel
           ret evs
     \<Longrightarrow> loop_exec path threshold excludeSet (FileEnt name (Inr fileSize) # entries) gs
           totalSize sizeChannel ret
           ((if threshold \<le> fileSize
             then [AddResult (Join path name) fileSize False] else []) @ evs)"
| goroutine_step:
    "loop_exec path threshold excludeSet entries (gs1 @ (pending, subdirSize) # gs2)
       totalSize sizeChannel ret evs
     \<Longrightarrow> loop_exec path threshold excludeSet entries (gs1 @ (ev # pending, subdirSize) # gs2)
           totalSize sizeChannel ret (ev # evs)"
| goroutine_send:
    "loop_exec path threshold excludeSet entries (gs1 @ gs2) totalSize
       (sizeChannel @ [subdirSize]) ret evs
     \<Longrightarrow> loop_exec path threshold excludeSet entries (gs1 @ ([], subdirSize) # gs2) totalSize
           sizeChannel ret evs"
| loop_done:
    "loop_exec path threshold excludeSet [] [] totalSize sizeChannel
       (foldl (+) totalSize sizeChannel) []"

text \<open>
  What one child of a directory adds to the directory's total, and the effects it causes
  when its goroutine runs where it is started.  \<open>included\<close> are the entries the loop does
  not skip.
\<close>

fun child_size :: "string \<Rightarrow> uint64 \<Rightarrow> string set \<Rightarrow> dirent \<Rightarrow> uint64" where
  "child_size path threshold excludeSet (FileEnt name (Inl err)) = 0"
| "child_size path threshold excludeSet (FileEnt name (Inr fileSize)) = fileSize"
| "child_size path threshold excludeSet (DirEnt name d) =
     fst (walkDirRecursive (Join path name) threshold excludeSet d)"

fun child_events :: "string \<Rightarrow> uint64 \<Rightarrow> string set \<Rightarrow> dirent \<Rightarrow> event list" where
  "child_events path threshold excludeSet (FileEnt name (Inl err)) =
     [Stderr (info_message (Join path name) err)]"
| "child_events path threshold excludeSet (FileEnt name (Inr fileSize)) =
     (if threshold \<le> fileSize then [AddResult (Join path name) fileSize False] else [])"
| "child_events path threshold excludeSet (DirEnt name d) =
     snd (walkDirRecursive (Join path name) threshold excludeSet d)
     @ (if threshold \<le> fst (walkDirRecursive (Join path name) threshold excludeSet d)
        then [AddResult (Join path name)
                (fst (walkDirRecursive (Join path name) threshold excludeSet d)) True]
        else [])"

definition included :: "string set \<Rightarrow> dirent list \<Rightarrow> dirent list" where
  "included excludeSet entries = filter (\<lambda>entry. Name entry \<notin> excludeSet) entries"

subsection \<open>The process state\<close>

text \<open>
  The package-level slice \<^verbatim>\<open>results\<close> and the two output streams.  \<open>addResult\<close> appends to
  \<^verbatim>\<open>results\<close>; no function of the program empties it.
\<close>

record state =
  results :: "FileInfo list"
  stdout :: string
  stderr :: string

definition addResult :: "string \<Rightarrow> uint64 \<Rightarrow> bool \<Rightarrow> state \<Rightarrow> state" where
  "addResult path sz isDir st =
     st\<lparr>results := results st @ [\<lparr>Path = path, Size = sz, IsDir = isDir\<rparr>]\<rparr>"

definition write_stdout :: "string \<Rightarrow> state \<Rightarrow> state" where
  "write_stdout s st = st\<lparr>stdout := stdout st @ s\<rparr>"

definition write_stderr :: "string \<Rightarrow> state \<Rightarrow> state" where
  "write_stderr s st = st\<lparr>stderr := stderr st @ s\<rparr>"

fun perform :: "event \<Rightarrow> state \<Rightarrow> state" where
  "perform (AddResult path sz isDir) st = addResult path sz isDir st"
| "perform (Stderr s) st = write_stderr s st"

definition perform_all :: "event list \<Rightarrow> state \<Rightarrow> state" where
  "perform_all evs st = foldl (\<lambda>st ev. perform ev st) st evs"

text \<open>
  One call of \<open>walkDirRecursive\<close> in a process whose state is \<open>st\<close>: the value returned and
  the state left behind.  \<open>aggregate\<close> takes the schedule of \<open>walkDirRecursive\<close>,
  \<open>aggregate_exec\<close> any schedule.
\<close>

definition aggregate ::
    "string \<Rightarrow> uint64 \<Rightarrow> string set \<Rightarrow> dirnode \<Rightarrow> state \<Rightarrow> uint64 \<times> state" where
  "aggregate path threshold excludeSet d st =
     (case walkDirRecursive path threshold excludeSet d of
        (totalSize, evs) \<Rightarrow> (totalSize, perform_all evs st))"

inductive aggregate_exec ::
    "string \<Rightarrow> uint64 \<Rightarrow> string set \<Rightarrow> dirnode \<Rightarrow> state \<Rightarrow> uint64 \<times> state \<Rightarrow> bool" where
  "walk_exec path threshold excludeSet d totalSize evs
   \<Longrightarrow> aggregate_exec path threshold excludeSet d st (totalSize, perform_all evs st)"

subsection \<open>Sorting the results\<close>

text \<open>
  The comparison \<open>run\<close> passes to \<^verbatim>\<open>sort.Slice\<close>; Go compares strings byte by byte, which is
  the lexicographic order of \<^typ>\<open>string\<close>.
\<close>

definition results_less :: "FileInfo \<Rightarrow> FileInfo \<Rightarrow> bool" where
  "results_less a b =
     (if IsDir a \<noteq> IsDir b then IsDir a
      else if Size a \<noteq> Size b then Size b < Size a
      else Path a < Path b)"

text \<open>
  \<^verbatim>\<open>sort.Slice\<close> leaves a permutation of the slice in which no element is less than an
  earlier one, and promises nothing about the order of elements neither of which is less
  than the other.  Here it is computed by insertion; with \<open>results_less\<close> no other outcome
  exists (lemma \<open>sort_Slice_unique\<close>).
\<close>

fun insert_by :: "('a \<Rightarrow> 'a \<Rightarrow> bool) \<Rightarrow> 'a \<Rightarrow> 'a list \<Rightarrow> 'a list" where
  "insert_by lt x [] = [x]"
| "insert_by lt x (y # ys) = (if lt y x then y # insert_by lt x ys else x # y # ys)"

definition sort_Slice :: "('a \<Rightarrow> 'a \<Rightarrow> bool) \<Rightarrow> 'a list \<Rightarrow> 'a list" where
  "sort_Slice lt xs = foldr (insert_by lt) xs []"

fun sorted_by :: "('a \<Rightarrow> 'a \<Rightarrow> bool) \<Rightarrow> 'a list \<Rightarrow> bool" where
  "sorted_by lt [] = True"
| "sorted_by lt (x # xs) = ((\<forall>y \<in> set xs. \<not> lt y x) \<and> sorted_by lt xs)"

subsection \<open>The command line\<close>

text \<open>
  \<^verbatim>\<open>flag.FlagSet.Parse\<close> for a flag set whose only flag is the string flag \<^verbatim>\<open>exclude\<close>.
  \<open>flag_Parse args excludeDirs\<close> returns the final value of the flag and the arguments
  left (\<^verbatim>\<open>fs.Args()\<close>), or the error.  Parsing stops at the first argument that is not a
  flag, and after \<^verbatim>\<open>--\<close>.
\<close>

definition flag_name_value :: "string \<Rightarrow> string \<times> string option" where
  "flag_name_value name =
     (if CHR ''='' \<in> set (tl name)
      then (hd name # takeWhile (\<lambda>c. c \<noteq> CHR ''='') (tl name),
            Some (tl (dropWhile (\<lambda>c. c \<noteq> CHR ''='') (tl name))))
      else (name, None))"

fun flag_Parse :: "string list \<Rightarrow> string \<Rightarrow> error + (string \<times> string list)" where
  "flag_Parse [] excludeDirs = Inr (excludeDirs, [])"
| "flag_Parse (s # rest) excludeDirs =
     (if length s < 2 \<or> hd s \<noteq> CHR ''-'' then Inr (excludeDirs, s # rest)
      else if s = ''--'' then Inr (excludeDirs, rest)
      else
        (let name = drop (if s ! 1 = CHR ''-'' then 2 else 1) s
         in if name = [] \<or> hd name = CHR ''-'' \<or> hd name = CHR ''='' then Inl (FlagBadSyntax s)
            else
              (case flag_name_value name of
                 (name', v) \<Rightarrow>
                   if name' \<noteq> ''exclude''
                   then (if name' = ''help'' \<or> name' = ''h'' then Inl FlagHelp
                         else Inl (FlagNotDefined name'))
                   else
                     (case v of
                        Some val \<Rightarrow> flag_Parse rest val
                      | None \<Rightarrow>
                          (case rest of
                             [] \<Rightarrow> Inl (FlagNeedsArgument name')
                           | val # rest' \<Rightarrow> flag_Parse rest' val)))))"

text \<open>
  \<^verbatim>\<open>fs.Usage\<close> as \<open>run\<close> sets it: three lines to the error stream, \<^verbatim>\<open>Options:\<close> to the
  standard output, and \<^verbatim>\<open>fs.PrintDefaults()\<close>, which writes the flag's description to the
  error stream.  When \<open>Parse\<close> fails the package prints the error (unless it is the request
  for help) and calls \<^verbatim>\<open>fs.Usage\<close>.
\<close>

definition Usage :: "string \<Rightarrow> state \<Rightarrow> state" where
  "Usage arg0 st =
     write_stderr
       (''  -exclude string'' @ [CHR 0x0A] @ ''    '' @ [CHR 0x09]
        @ ''Comma-separated list of directory names to exclude (default ''
        @ [CHR 0x22] @ ''proc,dev,sys'' @ [CHR 0x22] @ '')'' @ [CHR 0x0A])
       (write_stdout (''Options:'' @ [CHR 0x0A])
          (write_stderr (''Units: B, K, M, G, T, P'' @ [CHR 0x0A, CHR 0x0A])
             (write_stderr (''Size format: number[unit] (e.g., 100M, 1.5G)'' @ [CHR 0x0A])
                (write_stderr
                   (''Usage: '' @ arg0 @ '' [options] <directory> <min_size>'' @ [CHR 0x0A])
                   st))))"

definition flag_failed :: "string \<Rightarrow> error \<Rightarrow> state \<Rightarrow> state" where
  "flag_failed arg0 err st =
     Usage arg0 (if err = FlagHelp then st else write_stderr (Error err @ [CHR 0x0A]) st)"

subsection \<open>\<open>run\<close> and \<open>main\<close>\<close>

text \<open>
  \<^verbatim>\<open>os.Stat\<close> of the path to scan: an error (its text), something that is not a directory,
  or a directory, given as what a walk will find there.
\<close>

datatype stat_result = StatError string | StatFile | StatDir dirnode

definition build_excludeSet :: "string \<Rightarrow> string set" where
  "build_excludeSet excludeDirs =
     (if excludeDirs \<noteq> []
      then set (filter (\<lambda>trimmed. trimmed \<noteq> [])
                  (map TrimSpace (splitOn (CHR '','') excludeDirs)))
      else {})"

text \<open>
  \<open>run\<close> in three parts.  \<open>run_prepare\<close> is the function up to the call of
  \<open>walkDirRecursive\<close>: it ends the run (\<open>Inl\<close>, with what \<open>run\<close> returns: a panic, \<^verbatim>\<open>nil\<close>
  as \<open>None\<close> or an error) or is ready to scan.  \<open>run_finish\<close> is the function after that
  call, given the total and the effects of the walk.
\<close>

datatype ready = Ready string uint64 "string set" dirnode

definition run_prepare ::
    "(float64 \<Rightarrow> uint64) \<Rightarrow> (string \<Rightarrow> stat_result) \<Rightarrow> string list \<Rightarrow> state
       \<Rightarrow> ((panic + error option) + ready) \<times> state" where
  "run_prepare impl fs args st =
     (case args of
        [] \<Rightarrow> (Inl (Inl (SliceBoundsOutOfRange 1 0)), st)
      | arg0 # rest \<Rightarrow>
          (case flag_Parse rest ''proc,dev,sys'' of
             Inl err \<Rightarrow> (Inl (Inr (Some err)), flag_failed arg0 err st)
           | Inr (excludeDirs, positional) \<Rightarrow>
               if length positional \<noteq> 2
               then (Inl (Inr (Some InvalidNumberOfArguments)), Usage arg0 st)
               else
                 (let excludeSet = build_excludeSet excludeDirs;
                      scanPath = Clean (positional ! 0);
                      minSizeStr = positional ! 1
                  in if Base scanPath \<in> excludeSet
                     then (Inl (Inr None),
                           write_stdout
                             (''Top-level directory '' @ [CHR 0x27] @ scanPath @ [CHR 0x27]
                              @ '' is in the exclude list. Nothing to do.'' @ [CHR 0x0A]) st)
                     else
                       (case parseSize impl minSizeStr of
                          Inl err \<Rightarrow> (Inl (Inr (Some (ErrorWrap err))), st)
                        | Inr threshold \<Rightarrow>
                            (case fs scanPath of
                               StatError err \<Rightarrow>
                                 (Inl (Inr (Some (ErrorAccessing scanPath err))), st)
                             | StatFile \<Rightarrow> (Inl (Inr (Some (NotADirectory scanPath))), st)
                             | StatDir d \<Rightarrow>
                                 (case humanReadableSize threshold of
                                    Inl p \<Rightarrow> (Inl (Inl p), st)
                                  | Inr hrThreshold \<Rightarrow>
                                      (Inr (Ready scanPath threshold excludeSet d),
                                       write_stdout
                                         ([CHR 0x0A] @ ''TYPE   SIZE        NAME'' @ [CHR 0x0A]
                                          @ ''--------------------------------'' @ [CHR 0x0A])
                                         ((if excludeSet \<noteq> {}
                                           then write_stdout
                                                  (''Excluding: '' @ excludeDirs @ [CHR 0x0A])
                                           else (\<lambda>st. st))
                                            (write_stdout
                                               (''Minimum size threshold: '' @ hrThreshold
                                                @ [CHR 0x0A])
                                               (write_stdout
                                                  (''Scanning directory: '' @ scanPath
                                                   @ [CHR 0x0A]) st))))))))))"

text \<open>The loop that prints the results, one \<^verbatim>\<open>Printf("%s %-10s  %s\n", ...)\<close> each.\<close>

definition pad_right :: "nat \<Rightarrow> string \<Rightarrow> string" where
  "pad_right w s = s @ replicate (w - length s) (CHR '' '')"

fun display :: "FileInfo list \<Rightarrow> state \<Rightarrow> (panic + error option) \<times> state" where
  "display [] st = (Inr None, st)"
| "display (res # rest) st =
     (case humanReadableSize (Size res) of
        Inl p \<Rightarrow> (Inl p, st)
      | Inr hr \<Rightarrow>
          display rest
            (write_stdout
               ((if IsDir res then ''[DIR] '' else ''[FILE]'') @ '' '' @ pad_right 10 hr
                @ ''  '' @ Path res @ [CHR 0x0A]) st))"

definition run_finish ::
    "string \<Rightarrow> uint64 \<Rightarrow> uint64 \<Rightarrow> event list \<Rightarrow> state \<Rightarrow> (panic + error option) \<times> state" where
  "run_finish scanPath threshold totalSize evs st =
     (let st1 = perform_all evs st;
          st2 = (if threshold \<le> totalSize then addResult scanPath totalSize True st1 else st1);
          st3 = st2\<lparr>results := sort_Slice results_less (results st2)\<rparr>
      in display (results st3) st3)"

definition run ::
    "(float64 \<Rightarrow> uint64) \<Rightarrow> (string \<Rightarrow> stat_result) \<Rightarrow> string list \<Rightarrow> state
       \<Rightarrow> (panic + error option) \<times> state" where
  "run impl fs args st =
     (case run_prepare impl fs args st of
        (Inl r, st') \<Rightarrow> (r, st')
      | (Inr (Ready scanPath threshold excludeSet d), st') \<Rightarrow>
          (case walkDirRecursive scanPath threshold excludeSet d of
             (totalSize, evs) \<Rightarrow> run_finish scanPath threshold totalSize evs st'))"

text \<open>\<open>run\<close> under any schedule of the walk.\<close>

inductive run_exec ::
    "(float64 \<Rightarrow> uint64) \<Rightarrow> (string \<Rightarrow> stat_result) \<Rightarrow> string list \<Rightarrow> state
       \<Rightarrow> (panic + error option) \<times> state \<Rightarrow> bool" where
  run_ends:
    "run_prepare impl fs args st = (Inl r, st') \<Longrightarrow> run_exec impl fs args st (r, st')"
| run_scans:
    "run_prepare impl fs args st = (Inr (Ready scanPath threshold excludeSet d), st')
     \<Longrightarrow> walk_exec scanPath threshold excludeSet d totalSize evs
     \<Longrightarrow> run_exec impl fs args st (run_finish scanPath threshold totalSize evs st')"


subsection \<open>Notions the statements use\<close>

text \<open>
  The entries a sequence of effects appends to \<^verbatim>\<open>results\<close>, in order, and the lines it
  writes to the error stream.
\<close>

fun added :: "event list \<Rightarrow> FileInfo list" where
  "added [] = []"
| "added (AddResult path sz isDir # evs) = \<lparr>Path = path, Size = sz, IsDir = isDir\<rparr> # added evs"
| "added (Stderr s # evs) = added evs"

fun diagnostics :: "event list \<Rightarrow> string list" where
  "diagnostics [] = []"
| "diagnostics (AddResult path sz isDir # evs) = diagnostics evs"
| "diagnostics (Stderr s # evs) = s # diagnostics evs"

text \<open>
  The tree without the entries whose name is in the exclusion set, at every depth.
\<close>

fun prune :: "string set \<Rightarrow> dirnode \<Rightarrow> dirnode"
  and prune_entries :: "string set \<Rightarrow> dirent list \<Rightarrow> dirent list"
where
  "prune excludeSet (ReadDir (Inl err)) = ReadDir (Inl err)"
| "prune excludeSet (ReadDir (Inr entries)) = ReadDir (Inr (prune_entries excludeSet entries))"
| "prune_entries excludeSet [] = []"
| "prune_entries excludeSet (FileEnt name info # entries) =
     (if name \<in> excludeSet then prune_entries excludeSet entries
      else FileEnt name info # prune_entries excludeSet entries)"
| "prune_entries excludeSet (DirEnt name d # entries) =
     (if name \<in> excludeSet then prune_entries excludeSet entries
      else DirEnt name (prune excludeSet d) # prune_entries excludeSet entries)"

text \<open>
  \<open>node_at d names entry\<close>: going down from the directory \<open>d\<close> through the entries named
  \<open>names\<close>, one after the other, ends at \<open>entry\<close>.
\<close>

inductive node_at :: "dirnode \<Rightarrow> string list \<Rightarrow> dirent \<Rightarrow> bool" where
  here: "entry \<in> set entries \<Longrightarrow> node_at (ReadDir (Inr entries)) [Name entry] entry"
| below:
    "DirEnt name d \<in> set entries \<Longrightarrow> node_at d names entry
     \<Longrightarrow> node_at (ReadDir (Inr entries)) (name # names) entry"

text \<open>
  \<open>reached excludeSet path d q\<close>: the path \<open>q\<close> is that of an entry of the tree \<open>d\<close> at
  \<open>path\<close>, joined from the names on the way down, none of which is excluded.
\<close>

definition reached :: "string set \<Rightarrow> string \<Rightarrow> dirnode \<Rightarrow> string \<Rightarrow> bool" where
  "reached excludeSet path d q =
     (\<exists>names entry. node_at d names entry \<and> q = foldl Join path names
                    \<and> (\<forall>name \<in> set names. name \<notin> excludeSet))"

text \<open>
  The parts of a directory's total: what the loop adds to \<open>totalSize\<close> itself, and the
  entries whose size arrives on \<open>sizeChannel\<close>.
\<close>

fun file_part :: "dirent \<Rightarrow> uint64" where
  "file_part (FileEnt name (Inr fileSize)) = fileSize"
| "file_part (FileEnt name (Inl err)) = 0"
| "file_part (DirEnt name d) = 0"

fun is_DirEnt :: "dirent \<Rightarrow> bool" where
  "is_DirEnt (DirEnt name d) = True"
| "is_DirEnt (FileEnt name info) = False"

definition pending_events :: "goroutine list \<Rightarrow> event multiset" where
  "pending_events gs = sum_list (map (\<lambda>g. mset (fst g)) gs)"

text \<open>
  The size of a node and the nodes of a tree, written without the walk.  The size of a
  directory is the sum of the sizes of its entries that are not excluded, a subdirectory
  counting with its own size and an unreadable directory or file with zero.  \<open>nodes\<close> lists
  every file and directory of the tree at \<open>path\<close> that is reached through names that are not
  excluded, with its path, its size and its kind; a file whose size is unknown is not
  listed.  \<open>is_node\<close> says the same of one entry in terms of \<open>node_at\<close>.
\<close>

fun computed_size :: "string set \<Rightarrow> dirnode \<Rightarrow> uint64"
  and entries_size :: "string set \<Rightarrow> dirent list \<Rightarrow> uint64"
where
  "computed_size excludeSet (ReadDir (Inl err)) = 0"
| "computed_size excludeSet (ReadDir (Inr entries)) = entries_size excludeSet entries"
| "entries_size excludeSet [] = 0"
| "entries_size excludeSet (FileEnt name info # entries) =
     (if name \<in> excludeSet then 0 else case info of Inl err \<Rightarrow> 0 | Inr fileSize \<Rightarrow> fileSize)
     + entries_size excludeSet entries"
| "entries_size excludeSet (DirEnt name d # entries) =
     (if name \<in> excludeSet then 0 else computed_size excludeSet d)
     + entries_size excludeSet entries"

fun nodes :: "string \<Rightarrow> string set \<Rightarrow> dirnode \<Rightarrow> FileInfo list"
  and nodes_entries :: "string \<Rightarrow> string set \<Rightarrow> dirent list \<Rightarrow> FileInfo list"
where
  "nodes path excludeSet (ReadDir (Inl err)) = []"
| "nodes path excludeSet (ReadDir (Inr entries)) = nodes_entries path excludeSet entries"
| "nodes_entries path excludeSet [] = []"
| "nodes_entries path excludeSet (FileEnt name info # entries) =
     (if name \<in> excludeSet then []
      else case info of
             Inl err \<Rightarrow> []
           | Inr fileSize \<Rightarrow> [\<lparr>Path = Join path name, Size = fileSize, IsDir = False\<rparr>])
     @ nodes_entries path excludeSet entries"
| "nodes_entries path excludeSet (DirEnt name d # entries) =
     (if name \<in> excludeSet then []
      else \<lparr>Path = Join path name, Size = computed_size excludeSet d, IsDir = True\<rparr>
           # nodes (Join path name) excludeSet d)
     @ nodes_entries path excludeSet entries"

fun node_size :: "string set \<Rightarrow> dirent \<Rightarrow> uint64 option" where
  "node_size excludeSet (FileEnt name (Inr fileSize)) = Some fileSize"
| "node_size excludeSet (FileEnt name (Inl err)) = None"
| "node_size excludeSet (DirEnt name d) = Some (computed_size excludeSet d)"

definition is_node :: "string set \<Rightarrow> string \<Rightarrow> dirnode \<Rightarrow> FileInfo \<Rightarrow> bool" where
  "is_node excludeSet path d r =
     (\<exists>names entry. node_at d names entry \<and> (\<forall>name \<in> set names. name \<notin> excludeSet)
                    \<and> Path r = foldl Join path names
                    \<and> node_size excludeSet entry = Some (Size r)
                    \<and> IsDir r = is_DirEnt entry)"

text \<open>
  The line \<open>run\<close> prints for one result.
\<close>

definition hr_text :: "uint64 \<Rightarrow> string" where
  "hr_text sz = (case humanReadableSize sz of Inl p \<Rightarrow> [] | Inr s \<Rightarrow> s)"

definition result_line :: "FileInfo \<Rightarrow> string" where
  "result_line res =
     (if IsDir res then ''[DIR] '' else ''[FILE]'') @ '' '' @ pad_right 10 (hr_text (Size res))
     @ ''  '' @ Path res @ [CHR 0x0A]"

text \<open>
  The size grammar in the words of the specification: a non-negative decimal number
  (digits, with at most one decimal point and at least one digit), then the unit, which is
  optional: one of B, K, M, G, T, P in either case, the five prefixes optionally followed by
  a B.  The program also accepts white space between the two parts (and around the whole,
  which it trims first) and, for K, the Kelvin sign, which Unicode case folding equates
  with k; \<open>size_syntax\<close> admits them.
\<close>

definition spec_decimal :: "string \<Rightarrow> bool" where
  "spec_decimal s =
     (\<exists>k \<in> {0..length s}.
        list_all is_digit (take k s)
        \<and> (drop k s = [] \<or> (hd (drop k s) = CHR ''.'' \<and> list_all is_digit (tl (drop k s))))
        \<and> list_ex is_digit s)"

definition spec_units :: "string list" where
  "spec_units =
     [[], ''B'', ''K'', ''KB'', ''M'', ''MB'', ''G'', ''GB'', ''T'', ''TB'', ''P'', ''PB'']"

definition spec_unit :: "string \<Rightarrow> bool" where
  "spec_unit u =
     (ToUpper u \<in> set spec_units
      \<or> u \<in> set [kelvin_sign, kelvin_sign @ ''b'', kelvin_sign @ ''B''])"

definition size_syntax :: "string \<Rightarrow> bool" where
  "size_syntax t =
     (\<exists>i \<in> {0..length t}. \<exists>j \<in> {i..length t}.
        spec_decimal (take i t)
        \<and> list_all regex_space (take (j - i) (drop i t))
        \<and> spec_unit (drop j t))"

text \<open>
  The form \<^verbatim>\<open><number><unit>\<close> read to the letter: the number, then at once the unit or
  nothing.
\<close>

definition spec_size_form :: "string \<Rightarrow> bool" where
  "spec_size_form s =
     (\<exists>i \<in> {0..length s}. spec_decimal (take i s) \<and> ToUpper (drop i s) \<in> set spec_units)"

text \<open>
  The units of the specification whose multiplier \<open>parseSize\<close> applies, in upper case, and
  the strings that are one of them in either case.
\<close>

definition binary_units :: "string list" where
  "binary_units = [[], ''B'', ''K'', ''KB'', ''M'', ''MB'', ''G'', ''GB'', ''T'', ''TB'']"

definition unit_forms :: "string list" where
  "unit_forms =
     [[], ''b'', ''B'',
      ''k'', ''K'', ''kb'', ''kB'', ''Kb'', ''KB'',
      ''m'', ''M'', ''mb'', ''mB'', ''Mb'', ''MB'',
      ''g'', ''G'', ''gb'', ''gB'', ''Gb'', ''GB'',
      ''t'', ''T'', ''tb'', ''tB'', ''Tb'', ''TB'']"

text \<open>
  The multiplier the specification gives each unit, and one way an implementation may
  convert a float64 that does not fit \<^verbatim>\<open>uint64\<close> (saturation, as on arm64).
\<close>

definition spec_multiplier :: "string \<Rightarrow> nat" where
  "spec_multiplier u =
     (if prefix ''K'' (ToUpper u) then 1024
      else if prefix ''M'' (ToUpper u) then 1024 ^ 2
      else if prefix ''G'' (ToUpper u) then 1024 ^ 3
      else if prefix ''T'' (ToUpper u) then 1024 ^ 4
      else if prefix ''P'' (ToUpper u) then 1024 ^ 5
      else 1)"

definition saturating :: "float64 \<Rightarrow> uint64" where
  "saturating x = - 1"

text \<open>Trees, a file system and a state for the examples.\<close>

definition empty_state :: state where
  "empty_state = \<lparr>results = [], stdout = [], stderr = []\<rparr>"

definition scenario_tree :: dirnode where
  "scenario_tree =
     ReadDir (Inr [FileEnt ''file1.txt'' (Inr 5),
                   DirEnt ''subdir1'' (ReadDir (Inr [FileEnt ''file2.txt'' (Inr 5)])),
                   DirEnt ''subdir2'' (ReadDir (Inr [FileEnt ''file3.txt'' (Inr 1)]))])"

definition exclusion_tree :: dirnode where
  "exclusion_tree =
     ReadDir (Inr [FileEnt ''another_file.txt'' (Inr 5),
                   DirEnt ''excluded_dir'' (ReadDir (Inr [FileEnt ''file2.txt'' (Inr 4)])),
                   DirEnt ''included_dir'' (ReadDir (Inr [FileEnt ''file1.txt'' (Inr 3)]))])"

definition failing_tree :: dirnode where
  "failing_tree =
     ReadDir (Inr [FileEnt ''gone.txt'' (Inl ''no such file or directory''),
                   DirEnt ''locked'' (ReadDir (Inl ''permission denied'')),
                   FileEnt ''kept.txt'' (Inr 7)])"

definition scenario_fs :: "string \<Rightarrow> stat_result" where
  "scenario_fs p =
     (if p = ''/data'' then StatDir scenario_tree
      else if p = ''/broken'' then StatDir failing_tree
      else if p = ''proc'' then StatDir exclusion_tree
      else StatError ''no such file or directory'')"

section \<open>Proofs\<close>

subsection \<open>The walk: one schedule and all schedules\<close>

text \<open>
  The loop of \<open>walkDirRecursive\<close> in closed form, then the two facts that tie the
  schedules together: every schedule returns the total of \<open>walkDirRecursive\<close> and
  performs the same effects up to their order, and \<open>walkDirRecursive\<close> is one of the
  schedules.
\<close>

declare walk_entries.simps(2) [simp del]

lemma foldl_add_sum_list: "foldl (+) (a :: 'a :: comm_monoid_add) xs = a + sum_list xs"
  by (induction xs arbitrary: a) (simp_all add: add.assoc)

lemma walk_entries_excluded:
  "Name entry \<in> excludeSet \<Longrightarrow>
   walk_entries path threshold excludeSet (entry # entries) totalSize sizeChannel =
   walk_entries path threshold excludeSet entries totalSize sizeChannel"
  by (simp add: walk_entries.simps(2))

lemma walk_entries_eq:
  "walk_entries path threshold excludeSet entries totalSize sizeChannel =
     (totalSize + sum_list (map file_part (included excludeSet entries)),
      sizeChannel @ map (child_size path threshold excludeSet)
                      (filter is_DirEnt (included excludeSet entries)),
      concat (map (child_events path threshold excludeSet) (included excludeSet entries)))"
proof (induction entries arbitrary: totalSize sizeChannel)
  case Nil
  show ?case by (simp add: included_def)
next
  case (Cons entry entries)
  show ?case
  proof (cases "Name entry \<in> excludeSet")
    case True
    then show ?thesis
      by (simp add: walk_entries_excluded Cons.IH included_def)
  next
    case False
    show ?thesis
    proof (cases entry)
      case (FileEnt name info)
      with False show ?thesis
        by (cases info) (simp_all add: walk_entries.simps(2) Cons.IH included_def add.assoc)
    next
      case (DirEnt name d)
      with False show ?thesis
        by (simp add: walk_entries.simps(2) Cons.IH included_def split: prod.split)
    qed
  qed
qed

lemma child_size_split:
  "sum_list (map file_part es)
   + sum_list (map (child_size path threshold excludeSet) (filter is_DirEnt es))
   = sum_list (map (child_size path threshold excludeSet) es)"
proof (induction es)
  case Nil
  show ?case by simp
next
  case (Cons e es)
  show ?case
  proof (cases e)
    case (FileEnt name info)
    with Cons show ?thesis
      by (cases info) (simp_all add: add.assoc)
  next
    case (DirEnt name d)
    with Cons show ?thesis
      by (simp add: add.left_commute)
  qed
qed

lemma walkDirRecursive_readable:
  "walkDirRecursive path threshold excludeSet (ReadDir (Inr entries)) =
     (sum_list (map (child_size path threshold excludeSet) (included excludeSet entries)),
      concat (map (child_events path threshold excludeSet) (included excludeSet entries)))"
  by (simp add: walk_entries_eq foldl_add_sum_list child_size_split)

lemma pending_events_simps [simp]:
  "pending_events [] = {#}"
  "pending_events (g # gs) = mset (fst g) + pending_events gs"
  "pending_events (gs1 @ gs2) = pending_events gs1 + pending_events gs2"
  by (simp_all add: pending_events_def)

lemma exec_sound_aux:
  "(walk_exec path threshold excludeSet d ret evs \<longrightarrow>
      ret = fst (walkDirRecursive path threshold excludeSet d)
      \<and> mset evs = mset (snd (walkDirRecursive path threshold excludeSet d)))
   \<and> (loop_exec path' threshold' excludeSet' entries gs totalSize sizeChannel ret' evs' \<longrightarrow>
      ret' = totalSize + sum_list sizeChannel + sum_list (map snd gs)
             + sum_list (map (child_size path' threshold' excludeSet')
                           (included excludeSet' entries))
      \<and> mset evs' = pending_events gs
             + mset (concat (map (child_events path' threshold' excludeSet')
                               (included excludeSet' entries))))"
proof (induction rule: walk_exec_loop_exec.induct)
  case (readdir_error path threshold excludeSet err)
  show ?case by simp
next
  case (readdir_ok path threshold excludeSet entries ret evs)
  then show ?case by (simp add: walkDirRecursive_readable del: walkDirRecursive.simps)
next
  case (loop_excluded entry excludeSet path threshold entries gs totalSize sizeChannel ret evs)
  then show ?case by (simp add: included_def)
next
  case (loop_dir name excludeSet path threshold d subdirSize evs1 entries gs totalSize sizeChannel ret evs)
  then show ?case by (simp add: included_def add_ac)
next
  case (loop_file_error name excludeSet path threshold entries gs totalSize sizeChannel ret evs err)
  then show ?case by (simp add: included_def)
next
  case (loop_file name excludeSet path threshold entries gs totalSize fileSize sizeChannel ret evs)
  then show ?case by (simp add: included_def add_ac)
next
  case (goroutine_step path threshold excludeSet entries gs1 pending subdirSize gs2 totalSize sizeChannel ret evs ev)
  then show ?case by simp
next
  case (goroutine_send path threshold excludeSet entries gs1 gs2 totalSize sizeChannel subdirSize ret evs)
  then show ?case by (simp add: add_ac)
next
  case (loop_done path threshold excludeSet totalSize sizeChannel)
  show ?case by (simp add: foldl_add_sum_list included_def)
qed

lemma walk_exec_sound:
  "walk_exec path threshold excludeSet d ret evs \<Longrightarrow>
     ret = fst (walkDirRecursive path threshold excludeSet d)
     \<and> mset evs = mset (snd (walkDirRecursive path threshold excludeSet d))"
  using exec_sound_aux by blast

lemma goroutine_runs:
  "loop_exec path threshold excludeSet entries (gs1 @ gs2) totalSize
     (sizeChannel @ [subdirSize]) ret evs
   \<Longrightarrow> loop_exec path threshold excludeSet entries (gs1 @ (pending, subdirSize) # gs2)
         totalSize sizeChannel ret (pending @ evs)"
proof (induction pending)
  case Nil
  then show ?case by (simp add: goroutine_send)
next
  case (Cons ev pending)
  then show ?case by (simp add: goroutine_step)
qed

lemma loop_exec_entries:
  "(\<And>name d. DirEnt name d \<in> set entries \<Longrightarrow>
       walk_exec (Join path name) threshold excludeSet d
         (fst (walkDirRecursive (Join path name) threshold excludeSet d))
         (snd (walkDirRecursive (Join path name) threshold excludeSet d)))
   \<Longrightarrow> loop_exec path threshold excludeSet entries [] totalSize sizeChannel
         (foldl (+) (fst (walk_entries path threshold excludeSet entries totalSize sizeChannel))
            (fst (snd (walk_entries path threshold excludeSet entries totalSize sizeChannel))))
         (snd (snd (walk_entries path threshold excludeSet entries totalSize sizeChannel)))"
proof (induction entries arbitrary: totalSize sizeChannel)
  case Nil
  show ?case by (simp add: loop_done)
next
  case (Cons entry entries)
  have ih: "loop_exec path threshold excludeSet entries [] t c
         (foldl (+) (fst (walk_entries path threshold excludeSet entries t c))
            (fst (snd (walk_entries path threshold excludeSet entries t c))))
         (snd (snd (walk_entries path threshold excludeSet entries t c)))" for t c
    using Cons.IH Cons.prems by simp
  show ?case
  proof (cases "Name entry \<in> excludeSet")
    case True
    then show ?thesis
      using ih by (simp add: walk_entries_excluded loop_excluded)
  next
    case False
    show ?thesis
    proof (cases entry)
      case (FileEnt name info)
      show ?thesis
      proof (cases info)
        case (Inl err)
        have "loop_exec path threshold excludeSet (FileEnt name (Inl err) # entries) []
                totalSize sizeChannel
                (foldl (+) (fst (walk_entries path threshold excludeSet entries totalSize
                                   sizeChannel))
                   (fst (snd (walk_entries path threshold excludeSet entries totalSize
                                sizeChannel))))
                (Stderr (info_message (Join path name) err)
                 # snd (snd (walk_entries path threshold excludeSet entries totalSize
                               sizeChannel)))"
          using False FileEnt by (intro loop_file_error ih) simp
        with Inl FileEnt False show ?thesis
          by (simp add: walk_entries.simps(2) case_prod_beta)
      next
        case (Inr fileSize)
        have "loop_exec path threshold excludeSet (FileEnt name (Inr fileSize) # entries) []
                totalSize sizeChannel
                (foldl (+) (fst (walk_entries path threshold excludeSet entries
                                   (totalSize + fileSize) sizeChannel))
                   (fst (snd (walk_entries path threshold excludeSet entries
                                (totalSize + fileSize) sizeChannel))))
                ((if threshold \<le> fileSize
                  then [AddResult (Join path name) fileSize False] else [])
                 @ snd (snd (walk_entries path threshold excludeSet entries
                               (totalSize + fileSize) sizeChannel)))"
          using False FileEnt by (intro loop_file ih) simp
        with Inr FileEnt False show ?thesis
          by (simp add: walk_entries.simps(2) case_prod_beta)
      qed
    next
      case (DirEnt name d)
      define sub where "sub = walkDirRecursive (Join path name) threshold excludeSet d"
      have w: "walk_exec (Join path name) threshold excludeSet d (fst sub) (snd sub)"
        using Cons.prems [of name d] DirEnt by (simp add: sub_def)
      define pend where "pend = snd sub @ (if threshold \<le> fst sub
                           then [AddResult (Join path name) (fst sub) True] else [])"
      have "loop_exec path threshold excludeSet entries ([] @ (pend, fst sub) # []) totalSize
              sizeChannel
              (foldl (+) (fst (walk_entries path threshold excludeSet entries totalSize
                                 (sizeChannel @ [fst sub])))
                 (fst (snd (walk_entries path threshold excludeSet entries totalSize
                              (sizeChannel @ [fst sub])))))
              (pend @ snd (snd (walk_entries path threshold excludeSet entries totalSize
                              (sizeChannel @ [fst sub]))))"
        by (rule goroutine_runs) (simp add: ih)
      then have "loop_exec path threshold excludeSet (DirEnt name d # entries) [] totalSize
              sizeChannel
              (foldl (+) (fst (walk_entries path threshold excludeSet entries totalSize
                                 (sizeChannel @ [fst sub])))
                 (fst (snd (walk_entries path threshold excludeSet entries totalSize
                              (sizeChannel @ [fst sub])))))
              (pend @ snd (snd (walk_entries path threshold excludeSet entries totalSize
                              (sizeChannel @ [fst sub]))))"
      proof -
        assume a: "loop_exec path threshold excludeSet entries ([] @ (pend, fst sub) # []) totalSize
              sizeChannel
              (foldl (+) (fst (walk_entries path threshold excludeSet entries totalSize
                                 (sizeChannel @ [fst sub])))
                 (fst (snd (walk_entries path threshold excludeSet entries totalSize
                              (sizeChannel @ [fst sub])))))
              (pend @ snd (snd (walk_entries path threshold excludeSet entries totalSize
                              (sizeChannel @ [fst sub]))))"
        show ?thesis
        proof (rule loop_dir [where subdirSize = "fst sub" and ?evs1.0 = "snd sub"])
          show "name \<notin> excludeSet" using False DirEnt by simp
          show "walk_exec (Join path name) threshold excludeSet d (fst sub) (snd sub)" by (rule w)
          show "loop_exec path threshold excludeSet entries
                  ([] @ [(snd sub @ (if threshold \<le> fst sub
                                   then [AddResult (Join path name) (fst sub) True] else []),
                          fst sub)])
                  totalSize sizeChannel
                  (foldl (+) (fst (walk_entries path threshold excludeSet entries totalSize
                                     (sizeChannel @ [fst sub])))
                     (fst (snd (walk_entries path threshold excludeSet entries totalSize
                                  (sizeChannel @ [fst sub])))))
                  (pend @ snd (snd (walk_entries path threshold excludeSet entries totalSize
                                  (sizeChannel @ [fst sub]))))"
            using a by (simp add: pend_def)
        qed
      qed
      then show ?thesis
        using False DirEnt
        by (auto simp add: walk_entries.simps(2) sub_def [symmetric] pend_def case_prod_beta)
    qed
  qed
qed

lemma walk_exec_seq_aux:
  "(\<forall>path. walk_exec path threshold excludeSet d
            (fst (walkDirRecursive path threshold excludeSet d))
            (snd (walkDirRecursive path threshold excludeSet d)))
   \<and> (\<forall>name d' path. e = DirEnt name d' \<longrightarrow>
          walk_exec path threshold excludeSet d'
            (fst (walkDirRecursive path threshold excludeSet d'))
            (snd (walkDirRecursive path threshold excludeSet d')))"
proof (rule dirnode_dirent.induct)
  fix x :: "string + dirent list"
  assume ih: "\<And>entries entry. entries \<in> Basic_BNFs.setr x \<Longrightarrow> entry \<in> set entries \<Longrightarrow>
     \<forall>name d' path. entry = DirEnt name d' \<longrightarrow>
          walk_exec path threshold excludeSet d'
            (fst (walkDirRecursive path threshold excludeSet d'))
            (snd (walkDirRecursive path threshold excludeSet d'))"
  show "\<forall>path. walk_exec path threshold excludeSet (ReadDir x)
            (fst (walkDirRecursive path threshold excludeSet (ReadDir x)))
            (snd (walkDirRecursive path threshold excludeSet (ReadDir x)))"
  proof (cases x)
    case (Inl err)
    then show ?thesis by (simp add: readdir_error)
  next
    case (Inr entries)
    show ?thesis
    proof
      fix path
      have "loop_exec path threshold excludeSet entries [] 0 []
         (foldl (+) (fst (walk_entries path threshold excludeSet entries 0 []))
            (fst (snd (walk_entries path threshold excludeSet entries 0 []))))
         (snd (snd (walk_entries path threshold excludeSet entries 0 [])))"
      proof (rule loop_exec_entries)
        fix name d
        assume "DirEnt name d \<in> set entries"
        then show "walk_exec (Join path name) threshold excludeSet d
          (fst (walkDirRecursive (Join path name) threshold excludeSet d))
          (snd (walkDirRecursive (Join path name) threshold excludeSet d))"
          using ih [of entries "DirEnt name d"] Inr by simp
      qed
      then show "walk_exec path threshold excludeSet (ReadDir x)
            (fst (walkDirRecursive path threshold excludeSet (ReadDir x)))
            (snd (walkDirRecursive path threshold excludeSet (ReadDir x)))"
        using Inr by (simp add: case_prod_beta readdir_ok)
    qed
  qed
next
  fix name :: string and info :: "string + int64"
  show "\<forall>name' d' path. FileEnt name info = DirEnt name' d' \<longrightarrow>
          walk_exec path threshold excludeSet d'
            (fst (walkDirRecursive path threshold excludeSet d'))
            (snd (walkDirRecursive path threshold excludeSet d'))"
    by simp
next
  fix name :: string and d :: dirnode
  assume "\<forall>path. walk_exec path threshold excludeSet d
            (fst (walkDirRecursive path threshold excludeSet d))
            (snd (walkDirRecursive path threshold excludeSet d))"
  then show "\<forall>name' d' path. DirEnt name d = DirEnt name' d' \<longrightarrow>
          walk_exec path threshold excludeSet d'
            (fst (walkDirRecursive path threshold excludeSet d'))
            (snd (walkDirRecursive path threshold excludeSet d'))"
    by simp
qed

lemma walk_exec_seq:
  "walk_exec path threshold excludeSet d
     (fst (walkDirRecursive path threshold excludeSet d))
     (snd (walkDirRecursive path threshold excludeSet d))"
  using walk_exec_seq_aux [of threshold excludeSet d] by simp

subsection \<open>Evaluating the model on numerals and literals\<close>

lemma bit_length_eval [simp]:
  "bit_length 0 = 0"
  "bit_length (Suc 0) = 1"
  "bit_length (numeral k) = Suc (bit_length (numeral k div 2))"
  by (simp_all add: bit_length.simps [of 0] bit_length.simps [of "Suc 0"]
        bit_length.simps [of "numeral k"])

lemmas float64_eval =
  float64_round_def ilog2_ratio_def round_half_even_def Let_def float64_ratio_def
  float64_of_nat_def float64_trunc_def

lemmas parseSize_eval =
  parseSize_def TrimSpace_def TrimLeftOf.simps unicode_space_encodings_def
  FindStringSubmatch_def regex_digit_or_dot_def regex_space_def regex_unit_group_def
  regex_unit_letters_def kelvin_sign_def ParseFloat_def decimal_syntax_def
  decimal_mantissa_def decimal_scale_def is_digit_def digits_value_def digit_value_def
  ToUpper_def

lemmas humanReadableSize_eval =
  humanReadableSize_def hr_loop.simps string_index_def float64_of_uint64_def
  float64_of_int64_def hundredths_def show_nat.simps

subsection \<open>\<open>humanReadableSize\<close>\<close>

lemma hr_loop_exp:
  "unat n < 16 * 1024 ^ k \<Longrightarrow>
     ex \<le> snd (hr_loop n dv ex) \<and> snd (hr_loop n dv ex) \<le> ex + int k
     \<and> fst (hr_loop n dv ex) = dv * 1024 ^ nat (snd (hr_loop n dv ex) - ex)"
proof (induction k arbitrary: n dv ex)
  case 0
  then have "\<not> 1024 \<le> n"
    by (simp add: word_le_nat_alt)
  then show ?case
    by (simp add: hr_loop.simps [of n dv ex])
next
  case (Suc k)
  show ?case
  proof (cases "1024 \<le> n")
    case False
    then show ?thesis
      by (simp add: hr_loop.simps [of n dv ex])
  next
    case True
    have "unat (n div 1024) < 16 * 1024 ^ k"
      using Suc.prems by (simp add: unat_div)
    from Suc.IH [OF this, where dv = "dv * 1024" and ex = "ex + 1"]
    have ih: "ex + 1 \<le> snd (hr_loop (n div 1024) (dv * 1024) (ex + 1))"
      "snd (hr_loop (n div 1024) (dv * 1024) (ex + 1)) \<le> ex + 1 + int k"
      "fst (hr_loop (n div 1024) (dv * 1024) (ex + 1)) =
         dv * 1024 * 1024 ^ nat (snd (hr_loop (n div 1024) (dv * 1024) (ex + 1)) - (ex + 1))"
      by simp_all
    have eq: "hr_loop n dv ex = hr_loop (n div 1024) (dv * 1024) (ex + 1)"
      using True by (simp add: hr_loop.simps [of n dv ex])
    define r where "r = snd (hr_loop (n div 1024) (dv * 1024) (ex + 1))"
    have "nat (r - ex) = Suc (nat (r - (ex + 1)))"
      using ih(1) by (simp add: r_def)
    then show ?thesis
      using ih by (simp add: eq r_def [symmetric] mult.assoc)
  qed
qed

lemma hr_loop_start: "unat ((sz :: 64 word) div 1024) < 16 * 1024 ^ 5"
proof -
  have "unat sz < 2 ^ 64"
    using unsigned_less [of sz] by simp
  then show ?thesis
    by (simp add: unat_div)
qed

lemma hr_loop_bounds:
  "0 \<le> snd (hr_loop (sz div 1024) 1024 0) \<and> snd (hr_loop (sz div 1024) 1024 0) \<le> 5"
  using hr_loop_exp [OF hr_loop_start, where ex = 0 and dv = 1024 and sz1 = sz] by simp

text \<open>
  The divisor is \<open>1024 ^ (exp + 1)\<close>, at most \<open>2 ^ 60\<close>: the \<^verbatim>\<open>int64\<close> never wraps and is
  positive.
\<close>

lemma hr_loop_div:
  "fst (hr_loop (sz div 1024) 1024 0) = 1024 ^ Suc (nat (snd (hr_loop (sz div 1024) 1024 0)))"
  using hr_loop_exp [OF hr_loop_start, where ex = 0 and dv = 1024 and sz1 = sz] by simp

lemma hr_loop_div_positive:
  "0 < sint (fst (hr_loop (sz div 1024) 1024 0))"
proof -
  define e where "e = nat (snd (hr_loop (sz div 1024) 1024 0))"
  have "e \<le> 5"
    using hr_loop_bounds [of sz] by (auto simp add: e_def)
  then have "e \<in> {0, 1, 2, 3, 4, 5}"
    by auto
  then have "0 < sint ((1024 :: 64 word) ^ Suc e)"
    by auto
  then show ?thesis
    by (simp add: hr_loop_div e_def)
qed

lemma string_index_units:
  "0 \<le> i \<Longrightarrow> i \<le> 5 \<Longrightarrow> string_index ''KMGTPE'' i = Inr (''KMGTPE'' ! nat i)"
  by (simp add: string_index_def)

lemma humanReadableSize_returns: "\<exists>s. humanReadableSize sz = Inr s"
proof (cases "sz < 1024")
  case True
  then show ?thesis by (simp add: humanReadableSize_def)
next
  case False
  obtain dv ex where l: "hr_loop (sz div 1024) 1024 0 = (dv, ex)"
    by (cases "hr_loop (sz div 1024) 1024 0")
  with hr_loop_bounds [of sz] have "0 \<le> ex" "ex \<le> 5"
    by simp_all
  then have "string_index ''KMGTPE'' ex = Inr (''KMGTPE'' ! nat ex)"
    by (rule string_index_units)
  with False l show ?thesis
    by (simp add: humanReadableSize_def)
qed

lemma humanReadableSize_largest: "humanReadableSize (- 1) = Inr ''16.00 EiB''"
proof -
  have "humanReadableSize 18446744073709551615 = Inr ''16.00 EiB''"
    by (simp add: humanReadableSize_eval float64_eval)
  moreover have "(- 1 :: 64 word) = 18446744073709551615"
    by simp
  ultimately show ?thesis
    by (simp only:)
qed

text \<open>
  C10.  \<open>humanReadableSize\<close> returns a string for every \<^verbatim>\<open>uint64\<close>: it never panics.  When
  the input is at least 1024, the loop ends with an exponent between 0 and 5, so the index
  into \<^verbatim>\<open>"KMGTPE"\<close> is in range; the largest input is printed in EiB, the last unit of the
  string.
\<close>

theorem humanReadableSize_total:
  "(\<exists>s. humanReadableSize sz = Inr s)
   \<and> (1024 \<le> sz \<longrightarrow>
        0 \<le> snd (hr_loop (sz div 1024) 1024 0)
        \<and> snd (hr_loop (sz div 1024) 1024 0) \<le> 5
        \<and> string_index ''KMGTPE'' (snd (hr_loop (sz div 1024) 1024 0))
            = Inr (''KMGTPE'' ! nat (snd (hr_loop (sz div 1024) 1024 0))))
   \<and> humanReadableSize (- 1) = Inr ''16.00 EiB''"
  using humanReadableSize_returns [of sz] hr_loop_bounds [of sz] humanReadableSize_largest
  by (simp add: string_index_units)

theorem humanReadableSize_total_witness:
  "(1024 :: uint64) \<le> 2345678901234
   \<and> snd (hr_loop (2345678901234 div 1024) 1024 0) = 3
   \<and> string_index ''KMGTPE'' (snd (hr_loop (2345678901234 div 1024) 1024 0)) = Inr (CHR ''T'')
   \<and> humanReadableSize 2345678901234 = Inr ''2.13 TiB''"
proof -
  have a: "(1024 :: uint64) \<le> 2345678901234"
    by simp
  have b: "snd (hr_loop (2345678901234 div 1024) 1024 0) = 3"
    by (simp add: hr_loop.simps)
  have c: "humanReadableSize 2345678901234 = Inr ''2.13 TiB''"
    by (simp add: humanReadableSize_eval float64_eval)
  show ?thesis
    using humanReadableSize_total [of 2345678901234] a b c by simp
qed

subsection \<open>The total of a directory\<close>

declare walkDirRecursive.simps(2) [simp del]
declare walkDirRecursive_readable [simp]

lemmas path_eval =
  Join_def Clean_def clean_step_def Base_def

lemmas walk_eval =
  included_def read_dir_message_def info_message_def path_eval

lemma sum_list_permutation:
  fixes f :: "'a \<Rightarrow> 'b :: comm_monoid_add"
  assumes "mset xs = mset ys"
  shows "sum_list (map f (filter P xs)) = sum_list (map f (filter P ys))"
proof -
  have "mset (map f (filter P xs)) = mset (map f (filter P ys))"
    using assms by (metis mset_filter mset_map)
  then show ?thesis
    by (metis sum_mset_sum_list)
qed

lemma unat_sum_list:
  fixes xs :: "uint64 list"
  assumes "sum_list (map unat xs) < 2 ^ 64"
  shows "unat (sum_list xs) = sum_list (map unat xs)"
  using assms
proof (induction xs)
  case Nil
  show ?case by simp
next
  case (Cons x xs)
  then have small: "sum_list (map unat xs) < 2 ^ 64"
    by simp
  with Cons.IH have ih: "unat (sum_list xs) = sum_list (map unat xs)"
    by simp
  have "unat x + unat (sum_list xs) < 2 ^ LENGTH(64)"
    using Cons.prems ih by simp
  then have "unat (x + sum_list xs) = unat x + unat (sum_list xs)"
    by (simp only: unat_add_lem)
  with ih show ?case
    by simp
qed

lemma unat_sum_list_mod:
  fixes xs :: "uint64 list"
  shows "unat (sum_list xs) = sum_list (map unat xs) mod 2 ^ 64"
proof (induction xs)
  case Nil
  show ?case by simp
next
  case (Cons x xs)
  have "unat (x + sum_list xs) = (unat x + unat (sum_list xs)) mod 2 ^ 64"
    by (simp add: unat_word_ariths)
  also have "\<dots> = (unat x + sum_list (map unat xs) mod 2 ^ 64) mod 2 ^ 64"
    by (simp only: Cons.IH)
  also have "\<dots> = (unat x + sum_list (map unat xs)) mod 2 ^ 64"
    by (rule mod_add_right_eq)
  finally show ?case
    by simp
qed

text \<open>
  The claim C1 as stated fails when the sizes of the children add up to \<open>2 ^ 64\<close> or more:
  the total is a \<^verbatim>\<open>uint64\<close> and wraps.  Three files of \<open>2 ^ 63 - 1\<close> bytes give a total of
  \<open>2 ^ 63 - 3\<close>, which is less than the size of one of them.
\<close>

theorem total_wraps:
  "unat (fst (walkDirRecursive ''/data'' 1 {}
                (ReadDir (Inr [FileEnt ''a'' (Inr 9223372036854775807),
                               FileEnt ''b'' (Inr 9223372036854775807),
                               FileEnt ''c'' (Inr 9223372036854775807)]))))
     = 9223372036854775805
   \<and> unat (9223372036854775807 :: uint64) + unat (9223372036854775807 :: uint64)
       + unat (9223372036854775807 :: uint64) = 27670116110564327421"
  by (simp add: included_def)

text \<open>
  C1, amended.  Whatever the schedule, the total a readable directory returns is the sum, in
  \<^verbatim>\<open>uint64\<close>, of \<open>child_size\<close> over the entries that are not excluded: a file's size
  (zero when its \<^verbatim>\<open>Info\<close> fails), and for a subdirectory the total every schedule of the
  recursive call returns.  As a number it is the sum of the sizes modulo \<open>2 ^ 64\<close>, and so
  the exact sum of the sizes whenever that sum is below \<open>2 ^ 64\<close>.  The total is the same
  for every order of the entries.
\<close>

theorem total_is_sum_of_children:
  assumes "walk_exec path threshold excludeSet (ReadDir (Inr entries)) ret evs"
  shows "ret = sum_list (map (child_size path threshold excludeSet)
                       (included excludeSet entries))
    \<and> (\<forall>name d ret' evs'.
          walk_exec (Join path name) threshold excludeSet d ret' evs'
          \<longrightarrow> child_size path threshold excludeSet (DirEnt name d) = ret')
    \<and> (\<forall>entries' ret' evs'.
          mset entries' = mset entries
          \<longrightarrow> walk_exec path threshold excludeSet (ReadDir (Inr entries')) ret' evs'
          \<longrightarrow> ret' = ret)
    \<and> unat ret
        = sum_list (map (\<lambda>entry. unat (child_size path threshold excludeSet entry))
                     (included excludeSet entries)) mod 2 ^ 64
    \<and> (sum_list (map (\<lambda>entry. unat (child_size path threshold excludeSet entry))
                   (included excludeSet entries)) < 2 ^ 64
         \<longrightarrow> unat ret
             = sum_list (map (\<lambda>entry. unat (child_size path threshold excludeSet entry))
                          (included excludeSet entries)))"
proof (intro conjI allI impI)
  show total: "ret = sum_list (map (child_size path threshold excludeSet)
                              (included excludeSet entries))"
    using walk_exec_sound [OF assms] by simp
  show "child_size path threshold excludeSet (DirEnt name d) = ret'"
    if "walk_exec (Join path name) threshold excludeSet d ret' evs'" for name d ret' evs'
    using walk_exec_sound [OF that] by simp
  show "ret' = ret"
    if "mset entries' = mset entries"
      and "walk_exec path threshold excludeSet (ReadDir (Inr entries')) ret' evs'"
    for entries' ret' evs'
  proof -
    have "ret' = sum_list (map (child_size path threshold excludeSet)
                             (included excludeSet entries'))"
      using walk_exec_sound [OF that(2)] by simp
    also have "\<dots> = sum_list (map (child_size path threshold excludeSet)
                             (included excludeSet entries))"
      unfolding included_def by (rule sum_list_permutation [OF that(1)])
    finally show ?thesis
      using total by simp
  qed
  show "unat ret
        = sum_list (map (\<lambda>entry. unat (child_size path threshold excludeSet entry))
                     (included excludeSet entries)) mod 2 ^ 64"
    using unat_sum_list_mod [of "map (child_size path threshold excludeSet)
                                   (included excludeSet entries)"]
    by (simp add: total comp_def)
  show "unat ret = sum_list (map (\<lambda>entry. unat (child_size path threshold excludeSet entry))
                          (included excludeSet entries))"
    if "sum_list (map (\<lambda>entry. unat (child_size path threshold excludeSet entry))
                   (included excludeSet entries)) < 2 ^ 64"
  proof -
    have "sum_list (map unat (map (child_size path threshold excludeSet)
                                (included excludeSet entries))) < 2 ^ 64"
      using that by (simp add: comp_def)
    from unat_sum_list [OF this] show ?thesis
      by (simp add: total comp_def)
  qed
qed

lemma scenario_walk:
  "walkDirRecursive ''/data'' 1 {} scenario_tree =
     (11,
      [AddResult ''/data/file1.txt'' 5 False,
       AddResult ''/data/subdir1/file2.txt'' 5 False,
       AddResult ''/data/subdir1'' 5 True,
       AddResult ''/data/subdir2/file3.txt'' 1 False,
       AddResult ''/data/subdir2'' 1 True])"
  by (simp add: scenario_tree_def walk_eval)

theorem total_is_sum_of_children_witness:
  "walk_exec ''/data'' 1 {}
     (ReadDir (Inr [FileEnt ''file1.txt'' (Inr 5),
                    DirEnt ''subdir1'' (ReadDir (Inr [FileEnt ''file2.txt'' (Inr 5)])),
                    DirEnt ''subdir2'' (ReadDir (Inr [FileEnt ''file3.txt'' (Inr 1)]))]))
     11 (snd (walkDirRecursive ''/data'' 1 {} scenario_tree))
   \<and> sum_list (map (child_size ''/data'' 1 {})
         (included {}
            [FileEnt ''file1.txt'' (Inr 5),
             DirEnt ''subdir1'' (ReadDir (Inr [FileEnt ''file2.txt'' (Inr 5)])),
             DirEnt ''subdir2'' (ReadDir (Inr [FileEnt ''file3.txt'' (Inr 1)]))])) = 11"
proof -
  have run: "walk_exec ''/data'' 1 {}
     (ReadDir (Inr [FileEnt ''file1.txt'' (Inr 5),
                    DirEnt ''subdir1'' (ReadDir (Inr [FileEnt ''file2.txt'' (Inr 5)])),
                    DirEnt ''subdir2'' (ReadDir (Inr [FileEnt ''file3.txt'' (Inr 1)]))]))
     11 (snd (walkDirRecursive ''/data'' 1 {} scenario_tree))"
    using walk_exec_seq [of "''/data''" 1 "{}" scenario_tree]
    by (simp add: scenario_walk) (simp add: scenario_tree_def)
  from total_is_sum_of_children [OF run] run show ?thesis
    by simp
qed

subsection \<open>Exclusion\<close>

lemma included_prune_entries:
  "included excludeSet (prune_entries excludeSet entries) = prune_entries excludeSet entries"
proof (induction entries)
  case Nil
  show ?case by (simp add: included_def)
next
  case (Cons entry entries)
  then show ?case
    by (cases entry) (simp_all add: included_def)
qed

lemma prune_entries_children:
  assumes "\<And>name d p. DirEnt name d \<in> set entries \<Longrightarrow>
             walkDirRecursive p threshold excludeSet (prune excludeSet d)
             = walkDirRecursive p threshold excludeSet d"
  shows "map (child_size path threshold excludeSet) (prune_entries excludeSet entries)
           = map (child_size path threshold excludeSet) (included excludeSet entries)
         \<and> map (child_events path threshold excludeSet) (prune_entries excludeSet entries)
           = map (child_events path threshold excludeSet) (included excludeSet entries)"
  using assms
proof (induction entries)
  case Nil
  show ?case by (simp add: included_def)
next
  case (Cons entry entries)
  have "walkDirRecursive p threshold excludeSet (prune excludeSet d)
          = walkDirRecursive p threshold excludeSet d"
    if "DirEnt name d \<in> set entries" for name d p
    using Cons.prems [of name d p] that by simp
  from Cons.IH [OF this] have ih:
    "map (child_size path threshold excludeSet) (prune_entries excludeSet entries)
       = map (child_size path threshold excludeSet) (included excludeSet entries)"
    "map (child_events path threshold excludeSet) (prune_entries excludeSet entries)
       = map (child_events path threshold excludeSet) (included excludeSet entries)"
    by simp_all
  show ?case
  proof (cases entry)
    case (FileEnt name info)
    with ih show ?thesis
      by (simp add: included_def)
  next
    case (DirEnt name d)
    have "walkDirRecursive (Join path name) threshold excludeSet (prune excludeSet d)
            = walkDirRecursive (Join path name) threshold excludeSet d"
      using Cons.prems [of name d] DirEnt by simp
    with ih DirEnt show ?thesis
      by (simp add: included_def)
  qed
qed

lemma walk_prune_aux:
  "(\<forall>path. walkDirRecursive path threshold excludeSet (prune excludeSet d)
            = walkDirRecursive path threshold excludeSet d)
   \<and> (\<forall>name d' path. e = DirEnt name d' \<longrightarrow>
          walkDirRecursive path threshold excludeSet (prune excludeSet d')
          = walkDirRecursive path threshold excludeSet d')"
proof (rule dirnode_dirent.induct)
  fix x :: "string + dirent list"
  assume ih: "\<And>entries entry. entries \<in> Basic_BNFs.setr x \<Longrightarrow> entry \<in> set entries \<Longrightarrow>
     \<forall>name d' path. entry = DirEnt name d' \<longrightarrow>
          walkDirRecursive path threshold excludeSet (prune excludeSet d')
          = walkDirRecursive path threshold excludeSet d'"
  show "\<forall>path. walkDirRecursive path threshold excludeSet (prune excludeSet (ReadDir x))
            = walkDirRecursive path threshold excludeSet (ReadDir x)"
  proof (cases x)
    case (Inl err)
    then show ?thesis by simp
  next
    case (Inr entries)
    have "walkDirRecursive p threshold excludeSet (prune excludeSet d')
            = walkDirRecursive p threshold excludeSet d'"
      if "DirEnt name d' \<in> set entries" for name d' p
      using ih [of entries "DirEnt name d'"] Inr that by simp
    from prune_entries_children [OF this] Inr show ?thesis
      by (simp add: included_prune_entries)
  qed
next
  fix name :: string and info :: "string + int64"
  show "\<forall>name' d' path. FileEnt name info = DirEnt name' d' \<longrightarrow>
          walkDirRecursive path threshold excludeSet (prune excludeSet d')
          = walkDirRecursive path threshold excludeSet d'"
    by simp
next
  fix name :: string and d :: dirnode
  assume "\<forall>path. walkDirRecursive path threshold excludeSet (prune excludeSet d)
            = walkDirRecursive path threshold excludeSet d"
  then show "\<forall>name' d' path. DirEnt name d = DirEnt name' d' \<longrightarrow>
          walkDirRecursive path threshold excludeSet (prune excludeSet d')
          = walkDirRecursive path threshold excludeSet d'"
    by simp
qed

lemma walk_prune:
  "walkDirRecursive path threshold excludeSet (prune excludeSet d)
     = walkDirRecursive path threshold excludeSet d"
  using walk_prune_aux [of threshold excludeSet d] by simp

text \<open>
  Every entry recorded lies at the end of a chain of names none of which is excluded.
\<close>

lemma reached_here:
  "entry \<in> set entries \<Longrightarrow> Name entry \<notin> excludeSet
   \<Longrightarrow> reached excludeSet path (ReadDir (Inr entries)) (Join path (Name entry))"
  unfolding reached_def
  by (rule exI [of _ "[Name entry]"], rule exI [of _ entry]) (simp add: here)

lemma reached_below:
  assumes "DirEnt name d \<in> set entries" and "name \<notin> excludeSet"
    and "reached excludeSet (Join path name) d q"
  shows "reached excludeSet path (ReadDir (Inr entries)) q"
proof -
  from assms(3) obtain names entry where
    n: "node_at d names entry" "q = foldl Join (Join path name) names"
       "\<forall>n \<in> set names. n \<notin> excludeSet"
    unfolding reached_def by blast
  have "node_at (ReadDir (Inr entries)) (name # names) entry"
    using assms(1) n(1) by (rule below)
  moreover have "q = foldl Join path (name # names)"
    using n(2) by simp
  moreover have "\<forall>n \<in> set (name # names). n \<notin> excludeSet"
    using n(3) assms(2) by simp
  ultimately show ?thesis
    unfolding reached_def by blast
qed

lemma recorded_reached_aux:
  "(\<forall>path q sz isDir.
       AddResult q sz isDir \<in> set (snd (walkDirRecursive path threshold excludeSet d))
       \<longrightarrow> reached excludeSet path d q)
   \<and> (\<forall>name d' path q sz isDir. e = DirEnt name d' \<longrightarrow>
       AddResult q sz isDir \<in> set (snd (walkDirRecursive path threshold excludeSet d'))
       \<longrightarrow> reached excludeSet path d' q)"
proof (rule dirnode_dirent.induct)
  fix x :: "string + dirent list"
  assume ih: "\<And>entries entry. entries \<in> Basic_BNFs.setr x \<Longrightarrow> entry \<in> set entries \<Longrightarrow>
     \<forall>name d' path q sz isDir. entry = DirEnt name d' \<longrightarrow>
       AddResult q sz isDir \<in> set (snd (walkDirRecursive path threshold excludeSet d'))
       \<longrightarrow> reached excludeSet path d' q"
  show "\<forall>path q sz isDir.
       AddResult q sz isDir \<in> set (snd (walkDirRecursive path threshold excludeSet (ReadDir x)))
       \<longrightarrow> reached excludeSet path (ReadDir x) q"
  proof (cases x)
    case (Inl err)
    then show ?thesis by simp
  next
    case (Inr entries)
    show ?thesis
    proof (intro allI impI)
      fix path q sz isDir
      assume "AddResult q sz isDir
                \<in> set (snd (walkDirRecursive path threshold excludeSet (ReadDir x)))"
      then obtain entry where
        entry: "entry \<in> set entries" "Name entry \<notin> excludeSet"
          "AddResult q sz isDir \<in> set (child_events path threshold excludeSet entry)"
        using Inr by (auto simp add: included_def)
      show "reached excludeSet path (ReadDir x) q"
      proof (cases entry)
        case (FileEnt name info)
        with entry(3) have "q = Join path (Name entry)"
          by (cases info) (auto split: if_splits)
        with reached_here [OF entry(1,2)] Inr show ?thesis
          by simp
      next
        case (DirEnt name d')
        from entry(3) DirEnt consider
          "AddResult q sz isDir
             \<in> set (snd (walkDirRecursive (Join path name) threshold excludeSet d'))"
          | "q = Join path name"
          by (auto split: if_splits)
        then show ?thesis
        proof cases
          case 1
          have "entries \<in> Basic_BNFs.setr x"
            using Inr by simp
          from ih [OF this entry(1)] DirEnt 1
          have "reached excludeSet (Join path name) d' q"
            by blast
          then show ?thesis
            using reached_below [of name d' entries excludeSet path q] entry(1,2) DirEnt Inr
            by simp
        next
          case 2
          with reached_here [OF entry(1,2)] DirEnt Inr show ?thesis
            by simp
        qed
      qed
    qed
  qed
next
  fix name :: string and info :: "string + int64"
  show "\<forall>name' d' path q sz isDir. FileEnt name info = DirEnt name' d' \<longrightarrow>
       AddResult q sz isDir \<in> set (snd (walkDirRecursive path threshold excludeSet d'))
       \<longrightarrow> reached excludeSet path d' q"
    by simp
next
  fix name :: string and d :: dirnode
  assume "\<forall>path q sz isDir.
       AddResult q sz isDir \<in> set (snd (walkDirRecursive path threshold excludeSet d))
       \<longrightarrow> reached excludeSet path d q"
  then show "\<forall>name' d' path q sz isDir. DirEnt name d = DirEnt name' d' \<longrightarrow>
       AddResult q sz isDir \<in> set (snd (walkDirRecursive path threshold excludeSet d'))
       \<longrightarrow> reached excludeSet path d' q"
    by simp
qed

lemma recorded_reached:
  "AddResult q sz isDir \<in> set (snd (walkDirRecursive path threshold excludeSet d))
   \<Longrightarrow> reached excludeSet path d q"
  using recorded_reached_aux [of threshold excludeSet d] by blast

text \<open>
  C5.  Whatever the schedule, a walk returns the total and performs the effects (up to
  their order) of the walk over the pruned tree, in which no excluded entry exists at any
  depth; hence two trees that differ only in or under excluded entries give the same total
  and the same entries, whatever the excluded entries hold.  Every entry recorded is
  reached from the root through names none of which is in the exclusion set.
\<close>

theorem exclusion_prunes:
  assumes "walk_exec path threshold excludeSet d ret evs"
  shows "ret = fst (walkDirRecursive path threshold excludeSet (prune excludeSet d))
    \<and> mset evs = mset (snd (walkDirRecursive path threshold excludeSet (prune excludeSet d)))
    \<and> (\<forall>d' ret' evs'.
          prune excludeSet d' = prune excludeSet d
          \<longrightarrow> walk_exec path threshold excludeSet d' ret' evs'
          \<longrightarrow> ret' = ret \<and> mset evs' = mset evs)
    \<and> (\<forall>q sz isDir. AddResult q sz isDir \<in> set evs \<longrightarrow> reached excludeSet path d q)"
proof (intro conjI allI impI)
  note sound = walk_exec_sound [OF assms]
  show "ret = fst (walkDirRecursive path threshold excludeSet (prune excludeSet d))"
    using sound by (simp only: walk_prune)
  show "mset evs = mset (snd (walkDirRecursive path threshold excludeSet (prune excludeSet d)))"
    using sound by (simp only: walk_prune)
  show "ret' = ret" and "mset evs' = mset evs"
    if "prune excludeSet d' = prune excludeSet d"
      and "walk_exec path threshold excludeSet d' ret' evs'"
    for d' ret' evs'
  proof -
    have "walkDirRecursive path threshold excludeSet d'
            = walkDirRecursive path threshold excludeSet d"
      using walk_prune [of path threshold excludeSet d']
        walk_prune [of path threshold excludeSet d] that(1)
      by simp
    with walk_exec_sound [OF that(2)] sound show "ret' = ret" and "mset evs' = mset evs"
      by simp_all
  qed
  show "reached excludeSet path d q" if "AddResult q sz isDir \<in> set evs" for q sz isDir
  proof -
    have "set evs = set (snd (walkDirRecursive path threshold excludeSet d))"
      using sound by (metis set_mset_mset)
    with that show ?thesis
      by (simp add: recorded_reached)
  qed
qed

lemma exclusion_walk:
  "walkDirRecursive ''/data'' 1 {''excluded_dir''} exclusion_tree =
     (8,
      [AddResult ''/data/another_file.txt'' 5 False,
       AddResult ''/data/included_dir/file1.txt'' 3 False,
       AddResult ''/data/included_dir'' 3 True])"
  by (simp add: exclusion_tree_def walk_eval)

theorem exclusion_prunes_witness:
  "walk_exec ''/data'' 1 {''excluded_dir''} exclusion_tree 8
     [AddResult ''/data/another_file.txt'' 5 False,
      AddResult ''/data/included_dir/file1.txt'' 3 False,
      AddResult ''/data/included_dir'' 3 True]
   \<and> prune {''excluded_dir''} exclusion_tree =
       ReadDir (Inr [FileEnt ''another_file.txt'' (Inr 5),
                     DirEnt ''included_dir'' (ReadDir (Inr [FileEnt ''file1.txt'' (Inr 3)]))])
   \<and> fst (walkDirRecursive ''/data'' 1 {''excluded_dir''}
            (prune {''excluded_dir''} exclusion_tree)) = 8
   \<and> reached {''excluded_dir''} ''/data'' exclusion_tree ''/data/included_dir/file1.txt''"
proof -
  have seq: "walk_exec ''/data'' 1 {''excluded_dir''} exclusion_tree
     (fst (walkDirRecursive ''/data'' 1 {''excluded_dir''} exclusion_tree))
     (snd (walkDirRecursive ''/data'' 1 {''excluded_dir''} exclusion_tree))"
    by (rule walk_exec_seq)
  have run: "walk_exec ''/data'' 1 {''excluded_dir''} exclusion_tree 8
     [AddResult ''/data/another_file.txt'' 5 False,
      AddResult ''/data/included_dir/file1.txt'' 3 False,
      AddResult ''/data/included_dir'' 3 True]"
    using seq by (simp only: exclusion_walk fst_conv snd_conv)
  have pruned: "prune {''excluded_dir''} exclusion_tree =
       ReadDir (Inr [FileEnt ''another_file.txt'' (Inr 5),
                     DirEnt ''included_dir'' (ReadDir (Inr [FileEnt ''file1.txt'' (Inr 3)]))])"
    by (simp add: exclusion_tree_def)
  note facts = exclusion_prunes [OF run]
  have total: "8 = fst (walkDirRecursive ''/data'' 1 {''excluded_dir''}
                         (prune {''excluded_dir''} exclusion_tree))"
    by (rule conjunct1 [OF facts])
  have each: "\<forall>q sz isDir.
          AddResult q sz isDir
            \<in> set [AddResult ''/data/another_file.txt'' 5 False,
                   AddResult ''/data/included_dir/file1.txt'' 3 False,
                   AddResult ''/data/included_dir'' 3 True]
          \<longrightarrow> reached {''excluded_dir''} ''/data'' exclusion_tree q"
    by (rule conjunct2 [OF conjunct2 [OF conjunct2 [OF facts]]])
  have "reached {''excluded_dir''} ''/data'' exclusion_tree ''/data/included_dir/file1.txt''"
    by (rule each [rule_format, of "''/data/included_dir/file1.txt''" 3 False]) simp
  with run pruned total [symmetric] show ?thesis
    by (simp only: simp_thms)
qed

subsection \<open>The state after a walk, the sort and the listing\<close>

lemma perform_all_Nil [simp]: "perform_all [] st = st"
  by (simp add: perform_all_def)

lemma perform_all_Cons [simp]: "perform_all (ev # evs) st = perform_all evs (perform ev st)"
  by (simp add: perform_all_def)

lemma perform_all_append [simp]:
  "perform_all (evs1 @ evs2) st = perform_all evs2 (perform_all evs1 st)"
  by (simp add: perform_all_def)

lemma results_perform_all: "results (perform_all evs st) = results st @ added evs"
proof (induction evs arbitrary: st)
  case Nil
  show ?case by simp
next
  case (Cons ev evs)
  then show ?case
    by (cases ev) (simp_all add: addResult_def write_stderr_def)
qed

lemma stderr_perform_all: "stderr (perform_all evs st) = stderr st @ concat (diagnostics evs)"
proof (induction evs arbitrary: st)
  case Nil
  show ?case by simp
next
  case (Cons ev evs)
  then show ?case
    by (cases ev) (simp_all add: addResult_def write_stderr_def)
qed

lemma stdout_perform_all: "stdout (perform_all evs st) = stdout st"
proof (induction evs arbitrary: st)
  case Nil
  show ?case by simp
next
  case (Cons ev evs)
  then show ?case
    by (cases ev) (simp_all add: addResult_def write_stderr_def)
qed

lemma mset_added: "mset evs = mset evs' \<Longrightarrow> mset (added evs) = mset (added evs')"
proof -
  have "mset (added evs) =
          image_mset (\<lambda>ev. case ev of AddResult path sz isDir \<Rightarrow>
                                 \<lparr>Path = path, Size = sz, IsDir = isDir\<rparr>)
            (filter_mset (\<lambda>ev. case ev of AddResult path sz isDir \<Rightarrow> True | Stderr s \<Rightarrow> False)
               (mset evs))" for evs
    by (induction evs rule: added.induct) simp_all
  then show "mset evs = mset evs' \<Longrightarrow> mset (added evs) = mset (added evs')"
    by simp
qed

lemma mset_diagnostics:
  "mset evs = mset evs' \<Longrightarrow> mset (diagnostics evs) = mset (diagnostics evs')"
proof -
  have "mset (diagnostics evs) =
          image_mset (\<lambda>ev. case ev of Stderr s \<Rightarrow> s)
            (filter_mset (\<lambda>ev. case ev of AddResult path sz isDir \<Rightarrow> False | Stderr s \<Rightarrow> True)
               (mset evs))" for evs
    by (induction evs rule: diagnostics.induct) simp_all
  then show "mset evs = mset evs' \<Longrightarrow> mset (diagnostics evs) = mset (diagnostics evs')"
    by simp
qed

lemma added_append [simp]: "added (evs1 @ evs2) = added evs1 @ added evs2"
  by (induction evs1 rule: added.induct) simp_all

lemma diagnostics_append [simp]:
  "diagnostics (evs1 @ evs2) = diagnostics evs1 @ diagnostics evs2"
  by (induction evs1 rule: diagnostics.induct) simp_all

text \<open>\<open>results_less\<close> is a strict total order on the entries.\<close>

lemma results_less_irrefl: "\<not> results_less a a"
  by (simp add: results_less_def)

lemma results_less_trans: "results_less a b \<Longrightarrow> results_less b c \<Longrightarrow> results_less a c"
  by (auto simp add: results_less_def split: if_splits)

lemma results_less_total: "a \<noteq> b \<Longrightarrow> results_less a b \<or> results_less b a"
  for a b :: FileInfo
  by (cases a, cases b) (auto simp add: results_less_def)

lemma results_less_asym: "results_less a b \<Longrightarrow> \<not> results_less b a"
  using results_less_irrefl results_less_trans by blast

text \<open>Insertion gives a sorted permutation, and it is the only one.\<close>

lemma mset_insert_by [simp]: "mset (insert_by lt x ys) = add_mset x (mset ys)"
  by (induction ys) simp_all

lemma set_insert_by [simp]: "set (insert_by lt x ys) = insert x (set ys)"
  by (induction ys) auto

lemma mset_sort_Slice [simp]: "mset (sort_Slice lt xs) = mset xs"
  by (induction xs) (simp_all add: sort_Slice_def)

lemma sorted_insert_by:
  "sorted_by results_less ys \<Longrightarrow> sorted_by results_less (insert_by results_less x ys)"
proof (induction ys)
  case Nil
  show ?case by simp
next
  case (Cons y ys)
  show ?case
  proof (cases "results_less y x")
    case True
    with Cons show ?thesis
      by (auto dest: results_less_asym)
  next
    case False
    have "\<not> results_less z x" if "z \<in> set ys" for z
    proof
      assume zx: "results_less z x"
      from that Cons.prems have nzy: "\<not> results_less z y"
        by simp
      from False have "x = y \<or> results_less x y"
        using results_less_total by blast
      with zx nzy show False
        using results_less_trans by blast
    qed
    with False Cons.prems show ?thesis
      by simp
  qed
qed

lemma sorted_sort_Slice: "sorted_by results_less (sort_Slice results_less xs)"
  by (induction xs) (simp_all add: sort_Slice_def sorted_insert_by)

lemma sort_Slice_unique:
  "mset ys = mset xs \<Longrightarrow> sorted_by results_less ys \<Longrightarrow> sorted_by results_less xs \<Longrightarrow> ys = xs"
proof (induction ys arbitrary: xs)
  case Nil
  then show ?case by simp
next
  case (Cons y ys)
  then obtain x xs' where xs: "xs = x # xs'"
    by (cases xs) auto
  have "y \<in> set xs" and "x \<in> set (y # ys)"
    using Cons.prems(1) xs by (metis list.set_intros(1) mset_eq_setD)+
  have "x = y"
  proof (rule ccontr)
    assume "x \<noteq> y"
    then have "y \<in> set xs'" and "x \<in> set ys"
      using \<open>y \<in> set xs\<close> \<open>x \<in> set (y # ys)\<close> xs by auto
    then have "\<not> results_less y x" and "\<not> results_less x y"
      using Cons.prems(2,3) xs by auto
    with \<open>x \<noteq> y\<close> show False
      using results_less_total by blast
  qed
  with Cons xs show ?case
    by simp
qed

lemma sorted_by_nth:
  "sorted_by lt xs \<Longrightarrow> i < j \<Longrightarrow> j < length xs \<Longrightarrow> \<not> lt (xs ! j) (xs ! i)"
proof (induction xs arbitrary: i j)
  case Nil
  then show ?case by simp
next
  case (Cons x xs)
  show ?case
  proof (cases i)
    case 0
    with Cons.prems show ?thesis
      by (cases j) simp_all
  next
    case (Suc i')
    with Cons.prems obtain j' where "j = Suc j'"
      by (cases j) simp_all
    with Suc Cons show ?thesis
      by simp
  qed
qed

text \<open>The listing never panics and prints one line for each result, in order.\<close>

lemma display_lines:
  "display rs st = (Inr None, write_stdout (concat (map result_line rs)) st)"
proof (induction rs arbitrary: st)
  case Nil
  show ?case by (simp add: write_stdout_def)
next
  case (Cons res rs)
  obtain s where s: "humanReadableSize (Size res) = Inr s"
    using humanReadableSize_returns by blast
  then have "hr_text (Size res) = s"
    by (simp add: hr_text_def)
  with s Cons show ?case
    by (simp add: result_line_def write_stdout_def)
qed

lemma run_finish_eq:
  "run_finish scanPath threshold totalSize evs st =
     (Inr None,
      \<lparr>results = sort_Slice results_less
                   (results st @ added evs
                    @ (if threshold \<le> totalSize
                       then [\<lparr>Path = scanPath, Size = totalSize, IsDir = True\<rparr>] else [])),
       stdout = stdout st
                @ concat (map result_line
                    (sort_Slice results_less
                       (results st @ added evs
                        @ (if threshold \<le> totalSize
                           then [\<lparr>Path = scanPath, Size = totalSize, IsDir = True\<rparr>] else [])))),
       stderr = stderr st @ concat (diagnostics evs)\<rparr>)"
  by (simp add: run_finish_def Let_def display_lines write_stdout_def addResult_def
        results_perform_all stdout_perform_all stderr_perform_all)

subsection \<open>A run that scans\<close>

lemma run_exec_scan:
  assumes "run_prepare impl fs args st = (Inr (Ready scanPath threshold excludeSet d), st0)"
    and "run_exec impl fs args st (r, st')"
  shows "\<exists>evs. walk_exec scanPath threshold excludeSet d
                  (fst (walkDirRecursive scanPath threshold excludeSet d)) evs
               \<and> mset evs = mset (snd (walkDirRecursive scanPath threshold excludeSet d))
               \<and> (r, st') = run_finish scanPath threshold
                               (fst (walkDirRecursive scanPath threshold excludeSet d)) evs st0"
  using assms(2)
proof (cases rule: run_exec.cases)
  case run_ends
  with assms(1) show ?thesis by simp
next
  case (run_scans scanPath' threshold' excludeSet' d' st0' totalSize evs)
  with assms(1) have same: "scanPath' = scanPath" "threshold' = threshold"
    "excludeSet' = excludeSet" "d' = d" "st0' = st0"
    by simp_all
  from run_scans(3) walk_exec_sound [OF run_scans(3)] run_scans(1) show ?thesis
    unfolding same by blast
qed

lemma run_is_run_exec: "run_exec impl fs args st (run impl fs args st)"
proof (cases "run_prepare impl fs args st")
  case (Pair a st0)
  show ?thesis
  proof (cases a)
    case (Inl r)
    with Pair show ?thesis
      by (simp add: run_def run_ends)
  next
    case (Inr rdy)
    then obtain scanPath threshold excludeSet d where
      rdy: "a = Inr (Ready scanPath threshold excludeSet d)"
      by (cases rdy) simp
    have "run_exec impl fs args st
            (run_finish scanPath threshold
               (fst (walkDirRecursive scanPath threshold excludeSet d))
               (snd (walkDirRecursive scanPath threshold excludeSet d)) st0)"
      using Pair rdy by (intro run_scans [where excludeSet = excludeSet and d = d] walk_exec_seq) simp
    with Pair rdy show ?thesis
      by (simp add: run_def case_prod_beta)
  qed
qed

text \<open>
  What \<open>run\<close> decides before the walk does not depend on the state, and nothing before the
  walk touches \<open>results\<close>.
\<close>

lemma results_write [simp]:
  "results (write_stdout s st) = results st"
  "results (write_stderr s st) = results st"
  "results (Usage arg0 st) = results st"
  "results (flag_failed arg0 err st) = results st"
  by (simp_all add: write_stdout_def write_stderr_def Usage_def flag_failed_def)

lemma run_prepare_state:
  "fst (run_prepare impl fs args st') = fst (run_prepare impl fs args st)"
  by (simp add: run_prepare_def Let_def
           split: list.split sum.split prod.split stat_result.split)

lemma run_prepare_results:
  "results (snd (run_prepare impl fs args st)) = results st"
  by (simp add: run_prepare_def Let_def
           split: list.split sum.split prod.split stat_result.split)

lemma run_exec_results:
  assumes "run_prepare impl fs args st = (Inr (Ready scanPath threshold excludeSet d), st0)"
    and "run_exec impl fs args st (r, st')"
  shows "mset (results st') =
           mset (results st)
           + mset (added (snd (walkDirRecursive scanPath threshold excludeSet d)))
           + (if threshold \<le> fst (walkDirRecursive scanPath threshold excludeSet d)
              then {#\<lparr>Path = scanPath,
                       Size = fst (walkDirRecursive scanPath threshold excludeSet d),
                       IsDir = True\<rparr>#}
              else {#})"
proof -
  from run_exec_scan [OF assms] obtain evs where
    same: "mset evs = mset (snd (walkDirRecursive scanPath threshold excludeSet d))"
    and fin: "(r, st') = run_finish scanPath threshold
                (fst (walkDirRecursive scanPath threshold excludeSet d)) evs st0"
    by blast
  have "results st0 = results st"
    using run_prepare_results [of impl fs args st] assms(1) by simp
  with fin mset_added [OF same] show ?thesis
    by (simp add: run_finish_eq)
qed

lemmas run_eval =
  run_prepare_def flag_name_value_def build_excludeSet_def Usage_def flag_failed_def
  write_stdout_def write_stderr_def scenario_fs_def empty_state_def Let_def

subsection \<open>The order of the listing\<close>

text \<open>
  C8.  When a run scans, whatever the schedule, it returns \<^verbatim>\<open>nil\<close> and leaves \<^verbatim>\<open>results\<close>
  sorted by \<open>results_less\<close>, which is a strict total order: of two entries of the list, the
  later one is a directory only if the earlier one is; of two of the same kind the earlier
  one is at least as large; of two of the same kind and size the earlier one has the
  smaller or the same path.  The sorted list is a permutation of the result collection:
  the entries \<^verbatim>\<open>results\<close> held when the run began, the entries the walk of the root adds and
  the root itself when its total is at least the threshold, each as often as it was added.
  The lines printed after the header are those of the sorted list, in this order.
\<close>

theorem listing_is_sorted:
  assumes "run_prepare impl fs args st = (Inr (Ready scanPath threshold excludeSet d), st0)"
    and "run_exec impl fs args st (r, st')"
  shows "r = Inr None
    \<and> sorted_by results_less (results st')
    \<and> (\<forall>i j. i < j \<longrightarrow> j < length (results st') \<longrightarrow>
          (IsDir (results st' ! j) \<longrightarrow> IsDir (results st' ! i))
          \<and> (IsDir (results st' ! i) = IsDir (results st' ! j)
               \<longrightarrow> Size (results st' ! j) \<le> Size (results st' ! i))
          \<and> (IsDir (results st' ! i) = IsDir (results st' ! j)
               \<and> Size (results st' ! i) = Size (results st' ! j)
               \<longrightarrow> Path (results st' ! i) \<le> Path (results st' ! j)))
    \<and> mset (results st') =
          mset (results st)
          + mset (added (snd (walkDirRecursive scanPath threshold excludeSet d)))
          + (if threshold \<le> fst (walkDirRecursive scanPath threshold excludeSet d)
             then {#\<lparr>Path = scanPath,
                      Size = fst (walkDirRecursive scanPath threshold excludeSet d),
                      IsDir = True\<rparr>#}
             else {#})
    \<and> stdout st' = stdout st0 @ concat (map result_line (results st'))
    \<and> (\<forall>a b c. \<not> results_less a a
          \<and> (results_less a b \<longrightarrow> results_less b c \<longrightarrow> results_less a c)
          \<and> (a \<noteq> b \<longrightarrow> results_less a b \<or> results_less b a))"
proof -
  from run_exec_scan [OF assms] obtain evs where
    fin: "(r, st') = run_finish scanPath threshold
                       (fst (walkDirRecursive scanPath threshold excludeSet d)) evs st0"
    by blast
  define all where "all = results st0 @ added evs
      @ (if threshold \<le> fst (walkDirRecursive scanPath threshold excludeSet d)
         then [\<lparr>Path = scanPath,
                Size = fst (walkDirRecursive scanPath threshold excludeSet d),
                IsDir = True\<rparr>]
         else [])"
  from fin have r: "r = Inr None"
    and res: "results st' = sort_Slice results_less all"
    and out: "stdout st' = stdout st0 @ concat (map result_line (sort_Slice results_less all))"
    by (simp_all add: run_finish_eq all_def)
  have sorted: "sorted_by results_less (results st')"
    by (simp add: res sorted_sort_Slice)
  have pairs: "(IsDir (results st' ! j) \<longrightarrow> IsDir (results st' ! i))
          \<and> (IsDir (results st' ! i) = IsDir (results st' ! j)
               \<longrightarrow> Size (results st' ! j) \<le> Size (results st' ! i))
          \<and> (IsDir (results st' ! i) = IsDir (results st' ! j)
               \<and> Size (results st' ! i) = Size (results st' ! j)
               \<longrightarrow> Path (results st' ! i) \<le> Path (results st' ! j))"
    if "i < j" "j < length (results st')" for i j
    using sorted_by_nth [OF sorted that]
    by (auto simp add: results_less_def split: if_splits)
  have order: "\<not> results_less a a
          \<and> (results_less a b \<longrightarrow> results_less b c \<longrightarrow> results_less a c)
          \<and> (a \<noteq> b \<longrightarrow> results_less a b \<or> results_less b a)" for a b c
    using results_less_irrefl results_less_trans results_less_total by blast
  note collected = run_exec_results [OF assms]
  from r sorted pairs collected out res order show ?thesis
    by simp
qed

lemma scenario_prepare:
  "fst (run_prepare impl scenario_fs [''spacehogs'', ''/data'', ''1''] empty_state)
     = Inr (Ready ''/data'' 1 {''proc'', ''dev'', ''sys''} scenario_tree)"
  by (simp add: run_eval parseSize_eval float64_eval humanReadableSize_eval path_eval)

lemma scenario_walk_default:
  "walkDirRecursive ''/data'' 1 {''proc'', ''dev'', ''sys''} scenario_tree =
     (11,
      [AddResult ''/data/file1.txt'' 5 False,
       AddResult ''/data/subdir1/file2.txt'' 5 False,
       AddResult ''/data/subdir1'' 5 True,
       AddResult ''/data/subdir2/file3.txt'' 1 False,
       AddResult ''/data/subdir2'' 1 True])"
  by (simp add: scenario_tree_def walk_eval)

lemma scenario_sorted:
  "sort_Slice results_less
     [\<lparr>Path = ''/data/file1.txt'', Size = 5, IsDir = False\<rparr>,
      \<lparr>Path = ''/data/subdir1/file2.txt'', Size = 5, IsDir = False\<rparr>,
      \<lparr>Path = ''/data/subdir1'', Size = 5, IsDir = True\<rparr>,
      \<lparr>Path = ''/data/subdir2/file3.txt'', Size = 1, IsDir = False\<rparr>,
      \<lparr>Path = ''/data/subdir2'', Size = 1, IsDir = True\<rparr>,
      \<lparr>Path = ''/data'', Size = 11, IsDir = True\<rparr>]
   = [\<lparr>Path = ''/data'', Size = 11, IsDir = True\<rparr>,
      \<lparr>Path = ''/data/subdir1'', Size = 5, IsDir = True\<rparr>,
      \<lparr>Path = ''/data/subdir2'', Size = 1, IsDir = True\<rparr>,
      \<lparr>Path = ''/data/file1.txt'', Size = 5, IsDir = False\<rparr>,
      \<lparr>Path = ''/data/subdir1/file2.txt'', Size = 5, IsDir = False\<rparr>,
      \<lparr>Path = ''/data/subdir2/file3.txt'', Size = 1, IsDir = False\<rparr>]"
  by (simp add: sort_Slice_def results_less_def)

lemma scenario_results:
  "results (snd (run impl scenario_fs [''spacehogs'', ''/data'', ''1''] empty_state))
   = [\<lparr>Path = ''/data'', Size = 11, IsDir = True\<rparr>,
      \<lparr>Path = ''/data/subdir1'', Size = 5, IsDir = True\<rparr>,
      \<lparr>Path = ''/data/subdir2'', Size = 1, IsDir = True\<rparr>,
      \<lparr>Path = ''/data/file1.txt'', Size = 5, IsDir = False\<rparr>,
      \<lparr>Path = ''/data/subdir1/file2.txt'', Size = 5, IsDir = False\<rparr>,
      \<lparr>Path = ''/data/subdir2/file3.txt'', Size = 1, IsDir = False\<rparr>]"
proof -
  obtain st0 where
    prep: "run_prepare impl scenario_fs [''spacehogs'', ''/data'', ''1''] empty_state
             = (Inr (Ready ''/data'' 1 {''proc'', ''dev'', ''sys''} scenario_tree), st0)"
    using scenario_prepare [of impl] by (metis prod.collapse)
  have "results st0 = []"
    using arg_cong [OF prep, of "\<lambda>x. results (snd x)"]
    by (simp add: run_eval parseSize_eval float64_eval humanReadableSize_eval path_eval)
  then show ?thesis
    by (simp add: run_def prep scenario_walk_default run_finish_eq scenario_sorted)
qed

theorem listing_is_sorted_witness:
  "fst (run_prepare saturating scenario_fs [''spacehogs'', ''/data'', ''1''] empty_state)
     = Inr (Ready ''/data'' 1 {''proc'', ''dev'', ''sys''} scenario_tree)
   \<and> run_exec saturating scenario_fs [''spacehogs'', ''/data'', ''1''] empty_state
        (run saturating scenario_fs [''spacehogs'', ''/data'', ''1''] empty_state)
   \<and> fst (run saturating scenario_fs [''spacehogs'', ''/data'', ''1''] empty_state) = Inr None
   \<and> results (snd (run saturating scenario_fs [''spacehogs'', ''/data'', ''1''] empty_state))
       = [\<lparr>Path = ''/data'', Size = 11, IsDir = True\<rparr>,
          \<lparr>Path = ''/data/subdir1'', Size = 5, IsDir = True\<rparr>,
          \<lparr>Path = ''/data/subdir2'', Size = 1, IsDir = True\<rparr>,
          \<lparr>Path = ''/data/file1.txt'', Size = 5, IsDir = False\<rparr>,
          \<lparr>Path = ''/data/subdir1/file2.txt'', Size = 5, IsDir = False\<rparr>,
          \<lparr>Path = ''/data/subdir2/file3.txt'', Size = 1, IsDir = False\<rparr>]
   \<and> mset (results (snd (run saturating scenario_fs [''spacehogs'', ''/data'', ''1'']
                            empty_state)))
       = mset (added (snd (walkDirRecursive ''/data'' 1 {''proc'', ''dev'', ''sys''}
                             scenario_tree)))
         + {#\<lparr>Path = ''/data'', Size = 11, IsDir = True\<rparr>#}
   \<and> sorted_by results_less
        [\<lparr>Path = ''/data'', Size = 11, IsDir = True\<rparr>,
         \<lparr>Path = ''/data/subdir1'', Size = 5, IsDir = True\<rparr>,
         \<lparr>Path = ''/data/subdir2'', Size = 1, IsDir = True\<rparr>,
         \<lparr>Path = ''/data/file1.txt'', Size = 5, IsDir = False\<rparr>,
         \<lparr>Path = ''/data/subdir1/file2.txt'', Size = 5, IsDir = False\<rparr>,
         \<lparr>Path = ''/data/subdir2/file3.txt'', Size = 1, IsDir = False\<rparr>]"
proof -
  obtain st0 where
    prep: "run_prepare saturating scenario_fs [''spacehogs'', ''/data'', ''1''] empty_state
             = (Inr (Ready ''/data'' 1 {''proc'', ''dev'', ''sys''} scenario_tree), st0)"
    using scenario_prepare [of saturating] by (metis prod.collapse)
  obtain r st' where
    out: "run saturating scenario_fs [''spacehogs'', ''/data'', ''1''] empty_state = (r, st')"
    by (cases "run saturating scenario_fs [''spacehogs'', ''/data'', ''1''] empty_state")
  have exec: "run_exec saturating scenario_fs [''spacehogs'', ''/data'', ''1''] empty_state
                (r, st')"
    using run_is_run_exec [of saturating scenario_fs "[''spacehogs'', ''/data'', ''1'']"
                              empty_state]
    by (simp only: out)
  note facts = listing_is_sorted [OF prep exec]
  have r: "r = Inr None"
    by (rule conjunct1 [OF facts])
  have "sorted_by results_less (results st')"
    by (rule conjunct1 [OF conjunct2 [OF facts]])
  moreover have listing: "results st' =
        [\<lparr>Path = ''/data'', Size = 11, IsDir = True\<rparr>,
         \<lparr>Path = ''/data/subdir1'', Size = 5, IsDir = True\<rparr>,
         \<lparr>Path = ''/data/subdir2'', Size = 1, IsDir = True\<rparr>,
         \<lparr>Path = ''/data/file1.txt'', Size = 5, IsDir = False\<rparr>,
         \<lparr>Path = ''/data/subdir1/file2.txt'', Size = 5, IsDir = False\<rparr>,
         \<lparr>Path = ''/data/subdir2/file3.txt'', Size = 1, IsDir = False\<rparr>]"
    using scenario_results [of saturating] by (simp only: out snd_conv)
  ultimately have sorted: "sorted_by results_less
        [\<lparr>Path = ''/data'', Size = 11, IsDir = True\<rparr>,
         \<lparr>Path = ''/data/subdir1'', Size = 5, IsDir = True\<rparr>,
         \<lparr>Path = ''/data/subdir2'', Size = 1, IsDir = True\<rparr>,
         \<lparr>Path = ''/data/file1.txt'', Size = 5, IsDir = False\<rparr>,
         \<lparr>Path = ''/data/subdir1/file2.txt'', Size = 5, IsDir = False\<rparr>,
         \<lparr>Path = ''/data/subdir2/file3.txt'', Size = 1, IsDir = False\<rparr>]"
    by (simp only:)
  have "mset (results st') =
          mset (results empty_state)
          + mset (added (snd (walkDirRecursive ''/data'' 1 {''proc'', ''dev'', ''sys''}
                                scenario_tree)))
          + (if 1 \<le> fst (walkDirRecursive ''/data'' 1 {''proc'', ''dev'', ''sys''}
                           scenario_tree)
             then {#\<lparr>Path = ''/data'',
                      Size = fst (walkDirRecursive ''/data'' 1 {''proc'', ''dev'', ''sys''}
                                    scenario_tree),
                      IsDir = True\<rparr>#}
             else {#})"
    by (rule conjunct1 [OF conjunct2 [OF conjunct2 [OF conjunct2 [OF facts]]]])
  then have collected: "mset (results st')
       = mset (added (snd (walkDirRecursive ''/data'' 1 {''proc'', ''dev'', ''sys''}
                             scenario_tree)))
         + {#\<lparr>Path = ''/data'', Size = 11, IsDir = True\<rparr>#}"
    by (simp add: scenario_walk_default empty_state_def word_le_nat_alt
          del: walkDirRecursive_readable)
  from scenario_prepare [of saturating] exec r listing collected sorted show ?thesis
    by (simp only: out fst_conv snd_conv simp_thms)
qed

subsection \<open>The threshold\<close>

lemma child_events_in_walk:
  "entry \<in> set entries \<Longrightarrow> Name entry \<notin> excludeSet
   \<Longrightarrow> set (child_events path threshold excludeSet entry)
         \<subseteq> set (snd (walkDirRecursive path threshold excludeSet (ReadDir (Inr entries))))"
  by (auto simp add: included_def)

lemma recorded_at_least_aux:
  "(\<forall>path q sz isDir.
       AddResult q sz isDir \<in> set (snd (walkDirRecursive path threshold excludeSet d))
       \<longrightarrow> threshold \<le> sz)
   \<and> (\<forall>name d' path q sz isDir. e = DirEnt name d' \<longrightarrow>
       AddResult q sz isDir \<in> set (snd (walkDirRecursive path threshold excludeSet d'))
       \<longrightarrow> threshold \<le> sz)"
proof (rule dirnode_dirent.induct)
  fix x :: "string + dirent list"
  assume ih: "\<And>entries entry. entries \<in> Basic_BNFs.setr x \<Longrightarrow> entry \<in> set entries \<Longrightarrow>
     \<forall>name d' path q sz isDir. entry = DirEnt name d' \<longrightarrow>
       AddResult q sz isDir \<in> set (snd (walkDirRecursive path threshold excludeSet d'))
       \<longrightarrow> threshold \<le> sz"
  show "\<forall>path q sz isDir.
       AddResult q sz isDir \<in> set (snd (walkDirRecursive path threshold excludeSet (ReadDir x)))
       \<longrightarrow> threshold \<le> sz"
  proof (cases x)
    case (Inl err)
    then show ?thesis by simp
  next
    case (Inr entries)
    show ?thesis
    proof (intro allI impI)
      fix path q sz isDir
      assume "AddResult q sz isDir
                \<in> set (snd (walkDirRecursive path threshold excludeSet (ReadDir x)))"
      then obtain entry where
        entry: "entry \<in> set entries"
          "AddResult q sz isDir \<in> set (child_events path threshold excludeSet entry)"
        using Inr by (auto simp add: included_def)
      show "threshold \<le> sz"
      proof (cases entry)
        case (FileEnt name info)
        with entry(2) show ?thesis
          by (cases info) (auto split: if_splits)
      next
        case (DirEnt name d')
        from entry(2) DirEnt consider
          "AddResult q sz isDir
             \<in> set (snd (walkDirRecursive (Join path name) threshold excludeSet d'))"
          | "threshold \<le> sz"
          by (auto split: if_splits)
        then show ?thesis
        proof cases
          case 1
          have "entries \<in> Basic_BNFs.setr x"
            using Inr by simp
          from ih [OF this entry(1)] DirEnt 1 show ?thesis
            by blast
        next
          case 2
          then show ?thesis .
        qed
      qed
    qed
  qed
next
  fix name :: string and info :: "string + int64"
  show "\<forall>name' d' path q sz isDir. FileEnt name info = DirEnt name' d' \<longrightarrow>
       AddResult q sz isDir \<in> set (snd (walkDirRecursive path threshold excludeSet d'))
       \<longrightarrow> threshold \<le> sz"
    by simp
next
  fix name :: string and d :: dirnode
  assume "\<forall>path q sz isDir.
       AddResult q sz isDir \<in> set (snd (walkDirRecursive path threshold excludeSet d))
       \<longrightarrow> threshold \<le> sz"
  then show "\<forall>name' d' path q sz isDir. DirEnt name d = DirEnt name' d' \<longrightarrow>
       AddResult q sz isDir \<in> set (snd (walkDirRecursive path threshold excludeSet d'))
       \<longrightarrow> threshold \<le> sz"
    by simp
qed

lemma recorded_at_least:
  "AddResult q sz isDir \<in> set (snd (walkDirRecursive path threshold excludeSet d))
   \<Longrightarrow> threshold \<le> sz"
  using recorded_at_least_aux [of threshold excludeSet d] by blast

lemma file_recorded:
  assumes "node_at d names entry" and "\<forall>n \<in> set names. n \<notin> excludeSet"
    and "entry = FileEnt name (Inr fileSize)" and "threshold \<le> fileSize"
  shows "AddResult (foldl Join path names) fileSize False
           \<in> set (snd (walkDirRecursive path threshold excludeSet d))"
  using assms
proof (induction arbitrary: path rule: node_at.induct)
  case (here entry entries)
  then have "AddResult (Join path name) fileSize False
               \<in> set (child_events path threshold excludeSet entry)"
    by simp
  moreover have "set (child_events path threshold excludeSet entry)
          \<subseteq> set (snd (walkDirRecursive path threshold excludeSet (ReadDir (Inr entries))))"
    using here by (intro child_events_in_walk) simp_all
  moreover have "Name entry = name"
    using here by simp
  ultimately show ?case
    unfolding foldl_Cons foldl_Nil by blast
next
  case (below name' d entries names entry)
  then have "AddResult (foldl Join (Join path name') names) fileSize False
               \<in> set (snd (walkDirRecursive (Join path name') threshold excludeSet d))"
    by simp
  then have "AddResult (foldl Join (Join path name') names) fileSize False
               \<in> set (child_events path threshold excludeSet (DirEnt name' d))"
    by simp
  moreover have "set (child_events path threshold excludeSet (DirEnt name' d))
          \<subseteq> set (snd (walkDirRecursive path threshold excludeSet (ReadDir (Inr entries))))"
    using below by (intro child_events_in_walk) simp_all
  ultimately show ?case
    unfolding foldl_Cons by blast
qed

lemma directory_recorded:
  assumes "node_at d names entry" and "\<forall>n \<in> set names. n \<notin> excludeSet"
    and "entry = DirEnt name d'"
    and "threshold \<le> fst (walkDirRecursive (foldl Join path names) threshold excludeSet d')"
  shows "AddResult (foldl Join path names)
           (fst (walkDirRecursive (foldl Join path names) threshold excludeSet d')) True
           \<in> set (snd (walkDirRecursive path threshold excludeSet d))"
  using assms
proof (induction arbitrary: path rule: node_at.induct)
  case (here entry entries)
  then have "AddResult (Join path name)
               (fst (walkDirRecursive (Join path name) threshold excludeSet d')) True
               \<in> set (child_events path threshold excludeSet entry)"
    by simp
  moreover have "set (child_events path threshold excludeSet entry)
          \<subseteq> set (snd (walkDirRecursive path threshold excludeSet (ReadDir (Inr entries))))"
    using here by (intro child_events_in_walk) simp_all
  moreover have "Name entry = name"
    using here by simp
  ultimately show ?case
    unfolding foldl_Cons foldl_Nil by blast
next
  case (below name' d entries names entry)
  then have "AddResult (foldl Join (Join path name') names)
               (fst (walkDirRecursive (foldl Join (Join path name') names) threshold
                       excludeSet d')) True
               \<in> set (snd (walkDirRecursive (Join path name') threshold excludeSet d))"
    by simp
  then have "AddResult (foldl Join (Join path name') names)
               (fst (walkDirRecursive (foldl Join (Join path name') names) threshold
                       excludeSet d')) True
               \<in> set (child_events path threshold excludeSet (DirEnt name' d))"
    by simp
  moreover have "set (child_events path threshold excludeSet (DirEnt name' d))
          \<subseteq> set (snd (walkDirRecursive path threshold excludeSet (ReadDir (Inr entries))))"
    using below by (intro child_events_in_walk) simp_all
  ultimately show ?case
    unfolding foldl_Cons by blast
qed

lemma set_added:
  "\<lparr>Path = q, Size = sz, IsDir = isDir\<rparr> \<in> set (added evs) \<longleftrightarrow> AddResult q sz isDir \<in> set evs"
  by (induction evs rule: added.induct) auto

text \<open>The walk returns the size of the tree and records the nodes that reach the threshold.\<close>

lemma walk_nodes_entries:
  assumes "\<And>name d p. DirEnt name d \<in> set entries \<Longrightarrow>
             fst (walkDirRecursive p threshold excludeSet d) = computed_size excludeSet d
             \<and> mset (added (snd (walkDirRecursive p threshold excludeSet d)))
                = mset (filter (\<lambda>r. threshold \<le> Size r) (nodes p excludeSet d))"
  shows "sum_list (map (child_size path threshold excludeSet) (included excludeSet entries))
           = entries_size excludeSet entries
    \<and> mset (added (concat (map (child_events path threshold excludeSet)
                               (included excludeSet entries))))
        = mset (filter (\<lambda>r. threshold \<le> Size r) (nodes_entries path excludeSet entries))"
  using assms
proof (induction entries)
  case Nil
  show ?case by (simp add: included_def)
next
  case (Cons entry entries)
  have "fst (walkDirRecursive p threshold excludeSet d) = computed_size excludeSet d
        \<and> mset (added (snd (walkDirRecursive p threshold excludeSet d)))
           = mset (filter (\<lambda>r. threshold \<le> Size r) (nodes p excludeSet d))"
    if "DirEnt name d \<in> set entries" for name d p
    using Cons.prems [of name d p] that by simp
  from Cons.IH [OF this] have ih:
    "sum_list (map (child_size path threshold excludeSet) (included excludeSet entries))
       = entries_size excludeSet entries"
    "mset (added (concat (map (child_events path threshold excludeSet)
                            (included excludeSet entries))))
       = mset (filter (\<lambda>r. threshold \<le> Size r) (nodes_entries path excludeSet entries))"
    by simp_all
  show ?case
  proof (cases entry)
    case (FileEnt name info)
    with ih show ?thesis
      by (cases info) (simp_all add: included_def)
  next
    case (DirEnt name d)
    have "fst (walkDirRecursive (Join path name) threshold excludeSet d)
            = computed_size excludeSet d"
      and "mset (added (snd (walkDirRecursive (Join path name) threshold excludeSet d)))
            = mset (filter (\<lambda>r. threshold \<le> Size r) (nodes (Join path name) excludeSet d))"
      using Cons.prems [of name d "Join path name"] DirEnt by simp_all
    with ih DirEnt show ?thesis
      by (simp add: included_def del: walkDirRecursive_readable)
  qed
qed

lemma walk_nodes_aux:
  "(\<forall>path. fst (walkDirRecursive path threshold excludeSet d) = computed_size excludeSet d
           \<and> mset (added (snd (walkDirRecursive path threshold excludeSet d)))
              = mset (filter (\<lambda>r. threshold \<le> Size r) (nodes path excludeSet d)))
   \<and> (\<forall>name d' path. e = DirEnt name d' \<longrightarrow>
          fst (walkDirRecursive path threshold excludeSet d') = computed_size excludeSet d'
          \<and> mset (added (snd (walkDirRecursive path threshold excludeSet d')))
             = mset (filter (\<lambda>r. threshold \<le> Size r) (nodes path excludeSet d')))"
proof (rule dirnode_dirent.induct)
  fix x :: "string + dirent list"
  assume ih: "\<And>entries entry. entries \<in> Basic_BNFs.setr x \<Longrightarrow> entry \<in> set entries \<Longrightarrow>
     \<forall>name d' path. entry = DirEnt name d' \<longrightarrow>
          fst (walkDirRecursive path threshold excludeSet d') = computed_size excludeSet d'
          \<and> mset (added (snd (walkDirRecursive path threshold excludeSet d')))
             = mset (filter (\<lambda>r. threshold \<le> Size r) (nodes path excludeSet d'))"
  show "\<forall>path. fst (walkDirRecursive path threshold excludeSet (ReadDir x))
                 = computed_size excludeSet (ReadDir x)
           \<and> mset (added (snd (walkDirRecursive path threshold excludeSet (ReadDir x))))
              = mset (filter (\<lambda>r. threshold \<le> Size r) (nodes path excludeSet (ReadDir x)))"
  proof (cases x)
    case (Inl err)
    then show ?thesis by simp
  next
    case (Inr entries)
    have "fst (walkDirRecursive p threshold excludeSet d') = computed_size excludeSet d'
          \<and> mset (added (snd (walkDirRecursive p threshold excludeSet d')))
             = mset (filter (\<lambda>r. threshold \<le> Size r) (nodes p excludeSet d'))"
      if "DirEnt name d' \<in> set entries" for name d' p
      using ih [of entries "DirEnt name d'"] Inr that by simp
    from walk_nodes_entries [OF this] Inr show ?thesis
      by simp
  qed
next
  fix name :: string and info :: "string + int64"
  show "\<forall>name' d' path. FileEnt name info = DirEnt name' d' \<longrightarrow>
          fst (walkDirRecursive path threshold excludeSet d') = computed_size excludeSet d'
          \<and> mset (added (snd (walkDirRecursive path threshold excludeSet d')))
             = mset (filter (\<lambda>r. threshold \<le> Size r) (nodes path excludeSet d'))"
    by simp
next
  fix name :: string and d :: dirnode
  assume "\<forall>path. fst (walkDirRecursive path threshold excludeSet d) = computed_size excludeSet d
           \<and> mset (added (snd (walkDirRecursive path threshold excludeSet d)))
              = mset (filter (\<lambda>r. threshold \<le> Size r) (nodes path excludeSet d))"
  then show "\<forall>name' d' path. DirEnt name d = DirEnt name' d' \<longrightarrow>
          fst (walkDirRecursive path threshold excludeSet d') = computed_size excludeSet d'
          \<and> mset (added (snd (walkDirRecursive path threshold excludeSet d')))
             = mset (filter (\<lambda>r. threshold \<le> Size r) (nodes path excludeSet d'))"
    by simp
qed

lemma walk_nodes:
  "fst (walkDirRecursive path threshold excludeSet d) = computed_size excludeSet d"
  "mset (added (snd (walkDirRecursive path threshold excludeSet d)))
     = mset (filter (\<lambda>r. threshold \<le> Size r) (nodes path excludeSet d))"
  using walk_nodes_aux [of threshold excludeSet d] by simp_all


text \<open>\<open>nodes\<close> lists the nodes of the tree, and nothing else.\<close>

lemma is_node_here:
  assumes "entry \<in> set entries" and "Name entry \<notin> excludeSet"
    and "node_size excludeSet entry = Some sz"
  shows "is_node excludeSet path (ReadDir (Inr entries))
           \<lparr>Path = Join path (Name entry), Size = sz, IsDir = is_DirEnt entry\<rparr>"
  unfolding is_node_def
  using assms by (intro exI [of _ "[Name entry]"] exI [of _ entry]) (simp add: here)

lemma is_node_below:
  assumes "DirEnt name d \<in> set entries" and "name \<notin> excludeSet"
    and "is_node excludeSet (Join path name) d r"
  shows "is_node excludeSet path (ReadDir (Inr entries)) r"
proof -
  from assms(3) obtain names entry where
    n: "node_at d names entry" "\<forall>n \<in> set names. n \<notin> excludeSet"
       "Path r = foldl Join (Join path name) names"
       "node_size excludeSet entry = Some (Size r)" "IsDir r = is_DirEnt entry"
    unfolding is_node_def by blast
  have "node_at (ReadDir (Inr entries)) (name # names) entry"
    using assms(1) n(1) by (rule below)
  moreover have "Path r = foldl Join path (name # names)"
    using n(3) by simp
  moreover have "\<forall>n \<in> set (name # names). n \<notin> excludeSet"
    using n(2) assms(2) by simp
  ultimately show ?thesis
    unfolding is_node_def using n(4,5) by blast
qed

lemma nodes_entries_node:
  assumes "\<And>name d p r. DirEnt name d \<in> set entries \<Longrightarrow> r \<in> set (nodes p excludeSet d)
             \<Longrightarrow> is_node excludeSet p d r"
    and "r \<in> set (nodes_entries path excludeSet es)"
    and "set es \<subseteq> set entries"
  shows "is_node excludeSet path (ReadDir (Inr entries)) r"
  using assms(2,3)
proof (induction es)
  case Nil
  then show ?case by simp
next
  case (Cons entry es)
  show ?case
  proof (cases "r \<in> set (nodes_entries path excludeSet es)")
    case True
    with Cons show ?thesis by simp
  next
    case False
    show ?thesis
    proof (cases entry)
      case (FileEnt name info)
      with False Cons.prems(1) obtain fileSize where
        "name \<notin> excludeSet" "info = Inr fileSize"
        "r = \<lparr>Path = Join path name, Size = fileSize, IsDir = False\<rparr>"
        by (cases info) (auto split: if_splits)
      with is_node_here [of entry entries excludeSet fileSize path] FileEnt Cons.prems(2)
      show ?thesis by simp
    next
      case (DirEnt name d)
      with False Cons.prems(1) have name: "name \<notin> excludeSet"
        and r: "r = \<lparr>Path = Join path name, Size = computed_size excludeSet d, IsDir = True\<rparr>
                \<or> r \<in> set (nodes (Join path name) excludeSet d)"
        by (auto split: if_splits)
      have mem: "DirEnt name d \<in> set entries"
        using Cons.prems(2) DirEnt by simp
      from r show ?thesis
      proof
        assume "r = \<lparr>Path = Join path name, Size = computed_size excludeSet d, IsDir = True\<rparr>"
        with is_node_here [of entry entries excludeSet "computed_size excludeSet d" path]
          DirEnt mem name
        show ?thesis by simp
      next
        assume "r \<in> set (nodes (Join path name) excludeSet d)"
        from assms(1) [OF mem this] have "is_node excludeSet (Join path name) d r" .
        with mem name show ?thesis
          by (rule is_node_below)
      qed
    qed
  qed
qed

lemma nodes_node_aux:
  "(\<forall>path r. r \<in> set (nodes path excludeSet d) \<longrightarrow> is_node excludeSet path d r)
   \<and> (\<forall>name d' path r. e = DirEnt name d' \<longrightarrow> r \<in> set (nodes path excludeSet d')
         \<longrightarrow> is_node excludeSet path d' r)"
proof (rule dirnode_dirent.induct)
  fix x :: "string + dirent list"
  assume ih: "\<And>entries entry. entries \<in> Basic_BNFs.setr x \<Longrightarrow> entry \<in> set entries \<Longrightarrow>
     \<forall>name d' path r. entry = DirEnt name d' \<longrightarrow> r \<in> set (nodes path excludeSet d')
         \<longrightarrow> is_node excludeSet path d' r"
  show "\<forall>path r. r \<in> set (nodes path excludeSet (ReadDir x))
          \<longrightarrow> is_node excludeSet path (ReadDir x) r"
  proof (cases x)
    case (Inl err)
    then show ?thesis by simp
  next
    case (Inr entries)
    have sub: "is_node excludeSet p d' r"
      if "DirEnt name d' \<in> set entries" "r \<in> set (nodes p excludeSet d')" for name d' p r
      using ih [of entries "DirEnt name d'"] Inr that by simp
    show ?thesis
    proof (intro allI impI)
      fix path r
      assume "r \<in> set (nodes path excludeSet (ReadDir x))"
      then have "r \<in> set (nodes_entries path excludeSet entries)"
        by (simp add: Inr)
      from nodes_entries_node [OF sub this] show "is_node excludeSet path (ReadDir x) r"
        by (simp add: Inr)
    qed
  qed
next
  fix name :: string and info :: "string + int64"
  show "\<forall>name' d' path r. FileEnt name info = DirEnt name' d'
          \<longrightarrow> r \<in> set (nodes path excludeSet d') \<longrightarrow> is_node excludeSet path d' r"
    by simp
next
  fix name :: string and d :: dirnode
  assume "\<forall>path r. r \<in> set (nodes path excludeSet d) \<longrightarrow> is_node excludeSet path d r"
  then show "\<forall>name' d' path r. DirEnt name d = DirEnt name' d'
          \<longrightarrow> r \<in> set (nodes path excludeSet d') \<longrightarrow> is_node excludeSet path d' r"
    by simp
qed

lemma entry_in_nodes_entries:
  assumes "entry \<in> set entries" and "Name entry \<notin> excludeSet"
    and "node_size excludeSet entry = Some sz"
  shows "\<lparr>Path = Join path (Name entry), Size = sz, IsDir = is_DirEnt entry\<rparr>
           \<in> set (nodes_entries path excludeSet entries)"
  using assms(1)
proof (induction entries)
  case Nil
  then show ?case by simp
next
  case (Cons e es)
  show ?case
  proof (cases "entry = e")
    case True
    show ?thesis
    proof (cases e)
      case (FileEnt name info)
      with True assms(2,3) show ?thesis
        by (cases info) auto
    next
      case (DirEnt name d)
      with True assms(2,3) show ?thesis
        by auto
    qed
  next
    case False
    with Cons have "\<lparr>Path = Join path (Name entry), Size = sz, IsDir = is_DirEnt entry\<rparr>
           \<in> set (nodes_entries path excludeSet es)"
      by simp
    then show ?thesis
      by (cases e) simp_all
  qed
qed

lemma subtree_in_nodes_entries:
  assumes "DirEnt name d \<in> set entries" and "name \<notin> excludeSet"
  shows "set (nodes (Join path name) excludeSet d) \<subseteq> set (nodes_entries path excludeSet entries)"
  using assms(1)
proof (induction entries)
  case Nil
  then show ?case by simp
next
  case (Cons e es)
  show ?case
  proof (cases "DirEnt name d = e")
    case True
    with assms(2) show ?thesis
      by auto
  next
    case False
    with Cons have "set (nodes (Join path name) excludeSet d)
                      \<subseteq> set (nodes_entries path excludeSet es)"
      by simp
    then show ?thesis
      by (cases e) auto
  qed
qed

lemma node_in_nodes:
  assumes "node_at d names entry" and "\<forall>n \<in> set names. n \<notin> excludeSet"
    and "node_size excludeSet entry = Some sz"
  shows "\<lparr>Path = foldl Join path names, Size = sz, IsDir = is_DirEnt entry\<rparr>
           \<in> set (nodes path excludeSet d)"
  using assms
proof (induction arbitrary: path rule: node_at.induct)
  case (here entry entries)
  then show ?case
    using entry_in_nodes_entries [of entry entries excludeSet sz path] by simp
next
  case (below name d entries names entry)
  then have "\<lparr>Path = foldl Join (Join path name) names, Size = sz, IsDir = is_DirEnt entry\<rparr>
           \<in> set (nodes (Join path name) excludeSet d)"
    by simp
  moreover have "name \<notin> excludeSet"
    using below.prems by simp
  ultimately show ?case
    using subtree_in_nodes_entries [OF below.hyps(1), of excludeSet path] by auto
qed

lemma nodes_iff:
  "r \<in> set (nodes path excludeSet d) \<longleftrightarrow> is_node excludeSet path d r"
proof
  assume "r \<in> set (nodes path excludeSet d)"
  then show "is_node excludeSet path d r"
    using nodes_node_aux [of excludeSet d] by blast
next
  assume "is_node excludeSet path d r"
  then obtain names entry where
    n: "node_at d names entry" "\<forall>n \<in> set names. n \<notin> excludeSet"
       "Path r = foldl Join path names"
       "node_size excludeSet entry = Some (Size r)" "IsDir r = is_DirEnt entry"
    unfolding is_node_def by blast
  from node_in_nodes [OF n(1,2,4), of path] n(3,5) show "r \<in> set (nodes path excludeSet d)"
    by (cases r) simp
qed

text \<open>
  C6.  Whatever the schedule of a walk of the directory \<open>d\<close> at \<open>path\<close>: every entry it
  records has a size of at least the threshold; a file at any depth under \<open>d\<close>, reached
  through names that are not excluded and whose \<^verbatim>\<open>Info\<close> succeeds, is recorded with its size
  if and only if that size is at least the threshold; a directory at any depth, reached in
  the same way, is recorded with the total of its own walk if and only if that total is at
  least the threshold.  That total is the size of the directory (\<open>computed_size\<close>), and
  nothing else is recorded: the entries recorded are, each as often as it occurs, the nodes
  of the tree (\<open>nodes\<close>) whose size is at least the threshold, so that an entry with a path,
  a size and a kind is recorded if and only if it is the path, the size and the kind of a
  node that is not excluded, and the size is at least the threshold.  A run that scans adds
  to \<^verbatim>\<open>results\<close> what the walk of the root records and, after the walk, the root itself
  with the walk's total if and only if that total is at least the threshold: \<^verbatim>\<open>results\<close>
  then holds what it held before, and of the root and the nodes under it those whose size
  is at least the threshold.
\<close>

theorem recorded_iff_threshold:
  "(walk_exec path threshold excludeSet d ret evs \<longrightarrow>
      (\<forall>q sz isDir. AddResult q sz isDir \<in> set evs \<longrightarrow> threshold \<le> sz)
      \<and> (\<forall>names name fileSize.
            node_at d names (FileEnt name (Inr fileSize))
            \<longrightarrow> (\<forall>n \<in> set names. n \<notin> excludeSet)
            \<longrightarrow> (AddResult (foldl Join path names) fileSize False \<in> set evs
                 \<longleftrightarrow> threshold \<le> fileSize))
      \<and> (\<forall>names name d'.
            node_at d names (DirEnt name d')
            \<longrightarrow> (\<forall>n \<in> set names. n \<notin> excludeSet)
            \<longrightarrow> (AddResult (foldl Join path names)
                   (fst (walkDirRecursive (foldl Join path names) threshold excludeSet d')) True
                   \<in> set evs
                 \<longleftrightarrow> threshold
                      \<le> fst (walkDirRecursive (foldl Join path names) threshold excludeSet d')))
      \<and> ret = computed_size excludeSet d
      \<and> mset (added evs)
          = mset (filter (\<lambda>r. threshold \<le> Size r) (nodes path excludeSet d))
      \<and> (\<forall>q sz isDir.
            AddResult q sz isDir \<in> set evs
            \<longleftrightarrow> threshold \<le> sz
                \<and> is_node excludeSet path d \<lparr>Path = q, Size = sz, IsDir = isDir\<rparr>))
   \<and> (run_prepare impl fs args st = (Inr (Ready scanPath threshold' excludeSet' d0), st0)
        \<longrightarrow> run_exec impl fs args st (r, st')
        \<longrightarrow> (\<exists>evs0. walk_exec scanPath threshold' excludeSet' d0
                       (fst (walkDirRecursive scanPath threshold' excludeSet' d0)) evs0
                  \<and> mset (results st')
                      = mset (results st0) + mset (added evs0)
                        + (if threshold' \<le> fst (walkDirRecursive scanPath threshold' excludeSet' d0)
                           then {#\<lparr>Path = scanPath,
                                   Size = fst (walkDirRecursive scanPath threshold' excludeSet' d0),
                                   IsDir = True\<rparr>#}
                           else {#}))
            \<and> mset (results st')
                = mset (results st)
                  + mset (filter (\<lambda>r. threshold' \<le> Size r)
                            (\<lparr>Path = scanPath, Size = computed_size excludeSet' d0,
                               IsDir = True\<rparr>
                             # nodes scanPath excludeSet' d0)))"
proof (intro conjI impI)
  assume exec: "walk_exec path threshold excludeSet d ret evs"
  have evs: "set evs = set (snd (walkDirRecursive path threshold excludeSet d))"
    using walk_exec_sound [OF exec] by (metis set_mset_mset)
  show "\<forall>q sz isDir. AddResult q sz isDir \<in> set evs \<longrightarrow> threshold \<le> sz"
    unfolding evs using recorded_at_least by blast
  show "\<forall>names name fileSize.
            node_at d names (FileEnt name (Inr fileSize))
            \<longrightarrow> (\<forall>n \<in> set names. n \<notin> excludeSet)
            \<longrightarrow> (AddResult (foldl Join path names) fileSize False \<in> set evs
                 \<longleftrightarrow> threshold \<le> fileSize)"
    unfolding evs using recorded_at_least file_recorded by blast
  show "\<forall>names name d'.
            node_at d names (DirEnt name d')
            \<longrightarrow> (\<forall>n \<in> set names. n \<notin> excludeSet)
            \<longrightarrow> (AddResult (foldl Join path names)
                   (fst (walkDirRecursive (foldl Join path names) threshold excludeSet d')) True
                   \<in> set evs
                 \<longleftrightarrow> threshold
                      \<le> fst (walkDirRecursive (foldl Join path names) threshold excludeSet d'))"
    unfolding evs using recorded_at_least directory_recorded by blast
  show "ret = computed_size excludeSet d"
    using walk_exec_sound [OF exec] by (simp only: walk_nodes)
  have "mset evs = mset (snd (walkDirRecursive path threshold excludeSet d))"
    using walk_exec_sound [OF exec] by simp
  from mset_added [OF this]
  show recorded: "mset (added evs)
          = mset (filter (\<lambda>r. threshold \<le> Size r) (nodes path excludeSet d))"
    by (simp only: walk_nodes)
  have "AddResult q sz isDir \<in> set evs
          \<longleftrightarrow> threshold \<le> sz
              \<and> is_node excludeSet path d \<lparr>Path = q, Size = sz, IsDir = isDir\<rparr>"
    for q sz isDir
  proof -
    have "AddResult q sz isDir \<in> set evs
            \<longleftrightarrow> \<lparr>Path = q, Size = sz, IsDir = isDir\<rparr> \<in> set (added evs)"
      by (simp only: set_added)
    also have "\<dots> \<longleftrightarrow> \<lparr>Path = q, Size = sz, IsDir = isDir\<rparr>
                       \<in> set (filter (\<lambda>r. threshold \<le> Size r) (nodes path excludeSet d))"
      using recorded by (metis set_mset_mset)
    also have "\<dots> \<longleftrightarrow> threshold \<le> sz
                       \<and> is_node excludeSet path d \<lparr>Path = q, Size = sz, IsDir = isDir\<rparr>"
      by (auto simp add: nodes_iff)
    finally show ?thesis .
  qed
  then show "\<forall>q sz isDir.
            AddResult q sz isDir \<in> set evs
            \<longleftrightarrow> threshold \<le> sz
                \<and> is_node excludeSet path d \<lparr>Path = q, Size = sz, IsDir = isDir\<rparr>"
    by blast
next
  assume prep: "run_prepare impl fs args st
                  = (Inr (Ready scanPath threshold' excludeSet' d0), st0)"
    and exec: "run_exec impl fs args st (r, st')"
  from run_exec_scan [OF prep exec] obtain evs0 where
    w: "walk_exec scanPath threshold' excludeSet' d0
          (fst (walkDirRecursive scanPath threshold' excludeSet' d0)) evs0"
    and fin: "(r, st') = run_finish scanPath threshold'
                (fst (walkDirRecursive scanPath threshold' excludeSet' d0)) evs0 st0"
    by blast
  from fin have "mset (results st')
      = mset (results st0) + mset (added evs0)
        + (if threshold' \<le> fst (walkDirRecursive scanPath threshold' excludeSet' d0)
           then {#\<lparr>Path = scanPath,
                   Size = fst (walkDirRecursive scanPath threshold' excludeSet' d0),
                   IsDir = True\<rparr>#}
           else {#})"
    by (simp add: run_finish_eq)
  with w show "\<exists>evs0. walk_exec scanPath threshold' excludeSet' d0
                       (fst (walkDirRecursive scanPath threshold' excludeSet' d0)) evs0
                  \<and> mset (results st')
                      = mset (results st0) + mset (added evs0)
                        + (if threshold' \<le> fst (walkDirRecursive scanPath threshold' excludeSet' d0)
                           then {#\<lparr>Path = scanPath,
                                   Size = fst (walkDirRecursive scanPath threshold' excludeSet' d0),
                                   IsDir = True\<rparr>#}
                           else {#})"
    by blast
  from run_exec_results [OF prep exec]
  show "mset (results st')
          = mset (results st)
            + mset (filter (\<lambda>r. threshold' \<le> Size r)
                      (\<lparr>Path = scanPath, Size = computed_size excludeSet' d0, IsDir = True\<rparr>
                       # nodes scanPath excludeSet' d0))"
    by (simp add: walk_nodes del: walkDirRecursive_readable)
qed

lemma threshold_walk:
  "walkDirRecursive ''/data'' 5 {} scenario_tree =
     (11,
      [AddResult ''/data/file1.txt'' 5 False,
       AddResult ''/data/subdir1/file2.txt'' 5 False,
       AddResult ''/data/subdir1'' 5 True])"
  by (simp add: scenario_tree_def walk_eval word_le_nat_alt)

lemma scenario_file2:
  "node_at scenario_tree [''subdir1'', ''file2.txt''] (FileEnt ''file2.txt'' (Inr 5))"
  unfolding scenario_tree_def
  by (rule below [where d = "ReadDir (Inr [FileEnt ''file2.txt'' (Inr 5)])"], simp,
      rule here [of "FileEnt ''file2.txt'' (Inr 5)" "[FileEnt ''file2.txt'' (Inr 5)]",
                 simplified])

lemma scenario_subdir2:
  "node_at scenario_tree [''subdir2'']
     (DirEnt ''subdir2'' (ReadDir (Inr [FileEnt ''file3.txt'' (Inr 1)])))"
  unfolding scenario_tree_def
  by (rule here [of "DirEnt ''subdir2'' (ReadDir (Inr [FileEnt ''file3.txt'' (Inr 1)]))",
                 simplified]) simp

lemma scenario_nodes:
  "nodes ''/data'' {} scenario_tree
     = [\<lparr>Path = ''/data/file1.txt'', Size = 5, IsDir = False\<rparr>,
        \<lparr>Path = ''/data/subdir1'', Size = 5, IsDir = True\<rparr>,
        \<lparr>Path = ''/data/subdir1/file2.txt'', Size = 5, IsDir = False\<rparr>,
        \<lparr>Path = ''/data/subdir2'', Size = 1, IsDir = True\<rparr>,
        \<lparr>Path = ''/data/subdir2/file3.txt'', Size = 1, IsDir = False\<rparr>]"
  by (simp add: scenario_tree_def path_eval)

theorem recorded_iff_threshold_witness:
  "walk_exec ''/data'' 5 {} scenario_tree 11
     [AddResult ''/data/file1.txt'' 5 False,
      AddResult ''/data/subdir1/file2.txt'' 5 False,
      AddResult ''/data/subdir1'' 5 True]
   \<and> node_at scenario_tree [''subdir1'', ''file2.txt''] (FileEnt ''file2.txt'' (Inr 5))
   \<and> AddResult ''/data/subdir1/file2.txt'' 5 False
        \<in> set [AddResult ''/data/file1.txt'' 5 False,
                AddResult ''/data/subdir1/file2.txt'' 5 False,
                AddResult ''/data/subdir1'' 5 True]
   \<and> node_at scenario_tree [''subdir2'']
         (DirEnt ''subdir2'' (ReadDir (Inr [FileEnt ''file3.txt'' (Inr 1)])))
   \<and> AddResult ''/data/subdir2'' 1 True
        \<notin> set [AddResult ''/data/file1.txt'' 5 False,
                AddResult ''/data/subdir1/file2.txt'' 5 False,
                AddResult ''/data/subdir1'' 5 True]
   \<and> fst (run_prepare saturating scenario_fs [''spacehogs'', ''/data'', ''1''] empty_state)
       = Inr (Ready ''/data'' 1 {''proc'', ''dev'', ''sys''} scenario_tree)
   \<and> \<lparr>Path = ''/data'', Size = 11, IsDir = True\<rparr>
        \<in># mset (results (snd (run saturating scenario_fs [''spacehogs'', ''/data'', ''1'']
                                 empty_state)))
   \<and> computed_size {} scenario_tree = 11
   \<and> mset (added [AddResult ''/data/file1.txt'' 5 False,
                   AddResult ''/data/subdir1/file2.txt'' 5 False,
                   AddResult ''/data/subdir1'' 5 True])
       = mset (filter (\<lambda>r. 5 \<le> Size r) (nodes ''/data'' {} scenario_tree))
   \<and> nodes ''/data'' {} scenario_tree
       = [\<lparr>Path = ''/data/file1.txt'', Size = 5, IsDir = False\<rparr>,
          \<lparr>Path = ''/data/subdir1'', Size = 5, IsDir = True\<rparr>,
          \<lparr>Path = ''/data/subdir1/file2.txt'', Size = 5, IsDir = False\<rparr>,
          \<lparr>Path = ''/data/subdir2'', Size = 1, IsDir = True\<rparr>,
          \<lparr>Path = ''/data/subdir2/file3.txt'', Size = 1, IsDir = False\<rparr>]"
proof -
  let ?evs = "[AddResult ''/data/file1.txt'' 5 False,
               AddResult ''/data/subdir1/file2.txt'' 5 False,
               AddResult ''/data/subdir1'' 5 True]"
  let ?args = "[''spacehogs'', ''/data'', ''1'']"
  have seq: "walk_exec ''/data'' 5 {} scenario_tree
     (fst (walkDirRecursive ''/data'' 5 {} scenario_tree))
     (snd (walkDirRecursive ''/data'' 5 {} scenario_tree))"
    by (rule walk_exec_seq)
  have exec: "walk_exec ''/data'' 5 {} scenario_tree 11 ?evs"
    using seq by (simp only: threshold_walk fst_conv snd_conv)
  obtain st0 where
    prep: "run_prepare saturating scenario_fs ?args empty_state
             = (Inr (Ready ''/data'' 1 {''proc'', ''dev'', ''sys''} scenario_tree), st0)"
    using scenario_prepare [of saturating] by (metis prod.collapse)
  obtain r st' where out: "run saturating scenario_fs ?args empty_state = (r, st')"
    by (cases "run saturating scenario_fs ?args empty_state")
  have rexec: "run_exec saturating scenario_fs ?args empty_state (r, st')"
    using run_is_run_exec [of saturating scenario_fs ?args empty_state] by (simp only: out)
  note facts =
    recorded_iff_threshold [of "''/data''" 5 "{}" scenario_tree 11 ?evs saturating scenario_fs
      ?args empty_state "''/data''" 1 "{''proc'', ''dev'', ''sys''}" scenario_tree st0 r st']
  note walk_facts = conjunct1 [OF facts, rule_format, OF exec]
  note run_facts = conjunct2 [OF facts, rule_format, OF prep rexec]
  have files: "\<forall>names name fileSize.
            node_at scenario_tree names (FileEnt name (Inr fileSize))
            \<longrightarrow> (\<forall>n \<in> set names. n \<notin> {})
            \<longrightarrow> (AddResult (foldl Join ''/data'' names) fileSize False \<in> set ?evs
                 \<longleftrightarrow> 5 \<le> fileSize)"
    by (rule conjunct1 [OF conjunct2 [OF walk_facts]])
  have dirs: "\<forall>names name d'.
            node_at scenario_tree names (DirEnt name d')
            \<longrightarrow> (\<forall>n \<in> set names. n \<notin> {})
            \<longrightarrow> (AddResult (foldl Join ''/data'' names)
                   (fst (walkDirRecursive (foldl Join ''/data'' names) 5 {} d')) True
                   \<in> set ?evs
                 \<longleftrightarrow> 5 \<le> fst (walkDirRecursive (foldl Join ''/data'' names) 5 {} d'))"
    by (rule conjunct1 [OF conjunct2 [OF conjunct2 [OF walk_facts]]])
  have size: "11 = computed_size {} scenario_tree"
    by (rule conjunct1 [OF conjunct2 [OF conjunct2 [OF conjunct2 [OF walk_facts]]]])
  have only: "mset (added ?evs)
                = mset (filter (\<lambda>r. 5 \<le> Size r) (nodes ''/data'' {} scenario_tree))"
    by (rule conjunct1 [OF conjunct2 [OF conjunct2 [OF conjunct2 [OF conjunct2
          [OF walk_facts]]]]])
  have file2: "AddResult ''/data/subdir1/file2.txt'' 5 False \<in> set ?evs"
    using files [rule_format, OF scenario_file2] by (simp add: path_eval)
  have subdir2: "AddResult ''/data/subdir2'' 1 True \<notin> set ?evs"
    using dirs [rule_format, OF scenario_subdir2] by (simp add: walk_eval word_le_nat_alt)
  from conjunct1 [OF run_facts] obtain evs0 where
    "mset (results st')
       = mset (results st0) + mset (added evs0)
         + (if 1 \<le> fst (walkDirRecursive ''/data'' 1 {''proc'', ''dev'', ''sys''} scenario_tree)
            then {#\<lparr>Path = ''/data'',
                    Size = fst (walkDirRecursive ''/data'' 1 {''proc'', ''dev'', ''sys''}
                                  scenario_tree),
                    IsDir = True\<rparr>#}
            else {#})"
    by blast
  then have root: "\<lparr>Path = ''/data'', Size = 11, IsDir = True\<rparr> \<in># mset (results st')"
    by (simp add: scenario_walk_default)
  from exec scenario_file2 file2 scenario_subdir2 subdir2 scenario_prepare [of saturating] root
    size [symmetric] only scenario_nodes
  show ?thesis
    by (simp only: out snd_conv simp_thms)
qed


subsection \<open>Failures during the walk\<close>

lemma walk_exec_unreadable:
  assumes "walk_exec path threshold excludeSet (ReadDir (Inl err)) ret evs"
  shows "ret = 0 \<and> evs = [Stderr (read_dir_message path err)]"
  using assms by (cases rule: walk_exec.cases) simp_all

lemma included_split:
  "Name entry \<notin> excludeSet \<Longrightarrow>
   included excludeSet (es1 @ entry # es2)
     = included excludeSet es1 @ entry # included excludeSet es2"
  by (simp add: included_def)

lemma walk_exec_one_entry:
  assumes "Name entry \<notin> excludeSet"
    and "walk_exec path threshold excludeSet (ReadDir (Inr (es1 @ entry # es2))) ret evs"
  shows "ret = fst (walkDirRecursive path threshold excludeSet (ReadDir (Inr (es1 @ es2))))
               + child_size path threshold excludeSet entry
    \<and> mset evs = mset (snd (walkDirRecursive path threshold excludeSet
                              (ReadDir (Inr (es1 @ es2)))))
                 + mset (child_events path threshold excludeSet entry)"
proof -
  have split: "included excludeSet (es1 @ es2)
                 = included excludeSet es1 @ included excludeSet es2"
    by (simp add: included_def)
  from walk_exec_sound [OF assms(2)] show ?thesis
    by (simp add: included_split [OF assms(1)] split add_ac)
qed

text \<open>
  The claim C7 as stated fails for a directory whose listing fails when the threshold is
  0: the caller sees the total 0, which is at least the threshold, and records the
  directory.
\<close>

theorem unreadable_directory_recorded:
  "walkDirRecursive ''/broken'' 0 {}
     (ReadDir (Inr [DirEnt ''locked'' (ReadDir (Inl ''permission denied''))]))
   = (0, [Stderr (read_dir_message ''/broken/locked'' ''permission denied''),
          AddResult ''/broken/locked'' 0 True])"
  by (simp add: included_def path_eval)

text \<open>
  C7, amended.  Whatever the schedule: a walk of a directory whose listing fails writes one
  diagnostic, returns 0 and records nothing itself.  In a directory with an entry that is
  not excluded and fails, the total and the effects are those of the directory without
  that entry, plus the diagnostic: a file whose \<^verbatim>\<open>Info\<close> fails adds nothing else, and a
  subdirectory whose listing fails adds an entry of size 0 for itself exactly when the
  threshold is 0.  A run that scans returns \<^verbatim>\<open>nil\<close> and prints the listing whatever failed
  during the walk; the diagnostics of the walk are what it writes to the error stream.
\<close>

theorem failures_are_local:
  "(walk_exec path threshold excludeSet (ReadDir (Inl err)) ret evs
      \<longrightarrow> ret = 0 \<and> evs = [Stderr (read_dir_message path err)])
   \<and> (name \<notin> excludeSet
       \<longrightarrow> walk_exec path threshold excludeSet
             (ReadDir (Inr (es1 @ FileEnt name (Inl err) # es2))) ret evs
       \<longrightarrow> ret = fst (walkDirRecursive path threshold excludeSet (ReadDir (Inr (es1 @ es2))))
           \<and> mset evs
               = mset (snd (walkDirRecursive path threshold excludeSet
                              (ReadDir (Inr (es1 @ es2)))))
                 + {#Stderr (info_message (Join path name) err)#})
   \<and> (name \<notin> excludeSet
       \<longrightarrow> walk_exec path threshold excludeSet
             (ReadDir (Inr (es1 @ DirEnt name (ReadDir (Inl err)) # es2))) ret evs
       \<longrightarrow> ret = fst (walkDirRecursive path threshold excludeSet (ReadDir (Inr (es1 @ es2))))
           \<and> mset evs
               = mset (snd (walkDirRecursive path threshold excludeSet
                              (ReadDir (Inr (es1 @ es2)))))
                 + {#Stderr (read_dir_message (Join path name) err)#}
                 + (if threshold = 0 then {#AddResult (Join path name) 0 True#} else {#}))
   \<and> (run_prepare impl fs args st = (Inr (Ready scanPath threshold' excludeSet' d0), st0)
       \<longrightarrow> run_exec impl fs args st (r, st')
       \<longrightarrow> r = Inr None
           \<and> stdout st' = stdout st0 @ concat (map result_line (results st'))
           \<and> (\<exists>evs0. mset evs0
                        = mset (snd (walkDirRecursive scanPath threshold' excludeSet' d0))
                      \<and> stderr st' = stderr st0 @ concat (diagnostics evs0)))"
proof (intro conjI impI)
  assume "walk_exec path threshold excludeSet (ReadDir (Inl err)) ret evs"
  from walk_exec_unreadable [OF this]
  show "ret = 0" and "evs = [Stderr (read_dir_message path err)]"
    by simp_all
next
  assume "name \<notin> excludeSet"
    and "walk_exec path threshold excludeSet
           (ReadDir (Inr (es1 @ FileEnt name (Inl err) # es2))) ret evs"
  then have "ret = fst (walkDirRecursive path threshold excludeSet (ReadDir (Inr (es1 @ es2))))
                   + child_size path threshold excludeSet (FileEnt name (Inl err))
    \<and> mset evs = mset (snd (walkDirRecursive path threshold excludeSet
                              (ReadDir (Inr (es1 @ es2)))))
                 + mset (child_events path threshold excludeSet (FileEnt name (Inl err)))"
    by (intro walk_exec_one_entry) simp_all
  then show "ret = fst (walkDirRecursive path threshold excludeSet (ReadDir (Inr (es1 @ es2))))"
    and "mset evs
           = mset (snd (walkDirRecursive path threshold excludeSet (ReadDir (Inr (es1 @ es2)))))
             + {#Stderr (info_message (Join path name) err)#}"
    by (simp_all del: walkDirRecursive_readable)
next
  assume "name \<notin> excludeSet"
    and "walk_exec path threshold excludeSet
           (ReadDir (Inr (es1 @ DirEnt name (ReadDir (Inl err)) # es2))) ret evs"
  then have "ret = fst (walkDirRecursive path threshold excludeSet (ReadDir (Inr (es1 @ es2))))
                   + child_size path threshold excludeSet (DirEnt name (ReadDir (Inl err)))
    \<and> mset evs = mset (snd (walkDirRecursive path threshold excludeSet
                              (ReadDir (Inr (es1 @ es2)))))
                 + mset (child_events path threshold excludeSet
                           (DirEnt name (ReadDir (Inl err))))"
    by (intro walk_exec_one_entry) simp_all
  then show "ret = fst (walkDirRecursive path threshold excludeSet (ReadDir (Inr (es1 @ es2))))"
    and "mset evs
           = mset (snd (walkDirRecursive path threshold excludeSet (ReadDir (Inr (es1 @ es2)))))
             + {#Stderr (read_dir_message (Join path name) err)#}
             + (if threshold = 0 then {#AddResult (Join path name) 0 True#} else {#})"
    by (simp_all del: walkDirRecursive_readable)
next
  assume prep: "run_prepare impl fs args st
                  = (Inr (Ready scanPath threshold' excludeSet' d0), st0)"
    and exec: "run_exec impl fs args st (r, st')"
  from run_exec_scan [OF prep exec] obtain evs0 where
    same: "mset evs0 = mset (snd (walkDirRecursive scanPath threshold' excludeSet' d0))"
    and fin: "(r, st') = run_finish scanPath threshold'
                (fst (walkDirRecursive scanPath threshold' excludeSet' d0)) evs0 st0"
    by blast
  from fin show "r = Inr None"
    by (simp add: run_finish_eq)
  from fin show "stdout st' = stdout st0 @ concat (map result_line (results st'))"
    by (simp add: run_finish_eq)
  from fin have "stderr st' = stderr st0 @ concat (diagnostics evs0)"
    by (simp add: run_finish_eq)
  with same show "\<exists>evs0. mset evs0
                        = mset (snd (walkDirRecursive scanPath threshold' excludeSet' d0))
                      \<and> stderr st' = stderr st0 @ concat (diagnostics evs0)"
    by blast
qed

lemma broken_walk:
  "walkDirRecursive ''/broken'' 0 {''proc'', ''dev'', ''sys''} failing_tree =
     (7,
      [Stderr (info_message ''/broken/gone.txt'' ''no such file or directory''),
       Stderr (read_dir_message ''/broken/locked'' ''permission denied''),
       AddResult ''/broken/locked'' 0 True,
       AddResult ''/broken/kept.txt'' 7 False])"
  by (simp add: failing_tree_def included_def path_eval)

lemma broken_prepare:
  "fst (run_prepare impl scenario_fs [''spacehogs'', ''/broken'', ''0''] empty_state)
     = Inr (Ready ''/broken'' 0 {''proc'', ''dev'', ''sys''} failing_tree)"
  by (simp add: run_eval parseSize_eval float64_eval humanReadableSize_eval path_eval)

theorem failures_are_local_witness:
  "walk_exec ''/broken/locked'' 0 {} (ReadDir (Inl ''permission denied'')) 0
     [Stderr (read_dir_message ''/broken/locked'' ''permission denied'')]
   \<and> walk_exec ''/broken'' 0 {''proc'', ''dev'', ''sys''}
       (ReadDir (Inr ([FileEnt ''gone.txt'' (Inl ''no such file or directory'')]
                      @ DirEnt ''locked'' (ReadDir (Inl ''permission denied''))
                      # [FileEnt ''kept.txt'' (Inr 7)])))
       7
       [Stderr (info_message ''/broken/gone.txt'' ''no such file or directory''),
        Stderr (read_dir_message ''/broken/locked'' ''permission denied''),
        AddResult ''/broken/locked'' 0 True,
        AddResult ''/broken/kept.txt'' 7 False]
   \<and> fst (walkDirRecursive ''/broken'' 0 {''proc'', ''dev'', ''sys''}
            (ReadDir (Inr ([FileEnt ''gone.txt'' (Inl ''no such file or directory'')]
                           @ [FileEnt ''kept.txt'' (Inr 7)])))) = 7
   \<and> fst (run_prepare saturating scenario_fs [''spacehogs'', ''/broken'', ''0''] empty_state)
       = Inr (Ready ''/broken'' 0 {''proc'', ''dev'', ''sys''} failing_tree)
   \<and> fst (run saturating scenario_fs [''spacehogs'', ''/broken'', ''0''] empty_state) = Inr None"
proof -
  let ?args = "[''spacehogs'', ''/broken'', ''0'']"
  let ?x = "{''proc'', ''dev'', ''sys''}"
  let ?evs = "[Stderr (info_message ''/broken/gone.txt'' ''no such file or directory''),
        Stderr (read_dir_message ''/broken/locked'' ''permission denied''),
        AddResult ''/broken/locked'' 0 True,
        AddResult ''/broken/kept.txt'' 7 False]"
  have unreadable: "walk_exec ''/broken/locked'' 0 {} (ReadDir (Inl ''permission denied'')) 0
     [Stderr (read_dir_message ''/broken/locked'' ''permission denied'')]"
    by (rule readdir_error)
  have seq: "walk_exec ''/broken'' 0 ?x failing_tree
     (fst (walkDirRecursive ''/broken'' 0 ?x failing_tree))
     (snd (walkDirRecursive ''/broken'' 0 ?x failing_tree))"
    by (rule walk_exec_seq)
  have tree: "failing_tree =
       ReadDir (Inr ([FileEnt ''gone.txt'' (Inl ''no such file or directory'')]
                      @ DirEnt ''locked'' (ReadDir (Inl ''permission denied''))
                      # [FileEnt ''kept.txt'' (Inr 7)]))"
    by (simp add: failing_tree_def)
  have exec: "walk_exec ''/broken'' 0 ?x
       (ReadDir (Inr ([FileEnt ''gone.txt'' (Inl ''no such file or directory'')]
                      @ DirEnt ''locked'' (ReadDir (Inl ''permission denied''))
                      # [FileEnt ''kept.txt'' (Inr 7)])))
       7 ?evs"
    using seq [unfolded broken_walk fst_conv snd_conv] by (simp only: tree)
  obtain st0 where
    prep: "run_prepare saturating scenario_fs ?args empty_state
             = (Inr (Ready ''/broken'' 0 ?x failing_tree), st0)"
    using broken_prepare [of saturating] by (metis prod.collapse)
  obtain r st' where out: "run saturating scenario_fs ?args empty_state = (r, st')"
    by (cases "run saturating scenario_fs ?args empty_state")
  have rexec: "run_exec saturating scenario_fs ?args empty_state (r, st')"
    using run_is_run_exec [of saturating scenario_fs ?args empty_state] by (simp only: out)
  note facts =
    failures_are_local [of "''/broken''" 0 ?x "''permission denied''" 7 ?evs "''locked''"
      "[FileEnt ''gone.txt'' (Inl ''no such file or directory'')]"
      "[FileEnt ''kept.txt'' (Inr 7)]" saturating scenario_fs ?args empty_state
      "''/broken''" 0 ?x failing_tree st0 r st']
  have "''locked'' \<notin> ?x"
    by simp
  note dir_facts = conjunct1 [OF conjunct2 [OF conjunct2 [OF facts]], rule_format, OF this exec]
  note run_facts = conjunct2 [OF conjunct2 [OF conjunct2 [OF facts]], rule_format, OF prep rexec]
  have total: "7 = fst (walkDirRecursive ''/broken'' 0 ?x
            (ReadDir (Inr ([FileEnt ''gone.txt'' (Inl ''no such file or directory'')]
                           @ [FileEnt ''kept.txt'' (Inr 7)]))))"
    by (rule conjunct1 [OF dir_facts])
  have r: "r = Inr None"
    by (rule conjunct1 [OF run_facts])
  from unreadable exec total [symmetric] broken_prepare [of saturating] r show ?thesis
    by (simp only: out fst_conv simp_thms)
qed


subsection \<open>Two runs in one process\<close>

lemma aggregate_exec_results:
  assumes "aggregate_exec path threshold excludeSet d st (t, st')"
  shows "t = fst (walkDirRecursive path threshold excludeSet d)
    \<and> (\<exists>new. results st' = results st @ new
              \<and> mset new = mset (added (snd (walkDirRecursive path threshold excludeSet d))))"
  using assms
proof (cases rule: aggregate_exec.cases)
  case (1 evs)
  from walk_exec_sound [OF 1(2)] 1(1) show ?thesis
    by (auto simp add: results_perform_all intro: mset_added)
qed

text \<open>
  The claim C3 as stated fails: nothing in the program empties \<open>results\<close>, so the second of
  two calls in one process finds the entries of the first and leaves them twice.
\<close>

theorem results_persist:
  "snd (aggregate ''/data'' 5 {} (ReadDir (Inr [FileEnt ''a.txt'' (Inr 5)]))
          \<lparr>results = [], stdout = [], stderr = []\<rparr>)
     = \<lparr>results = [\<lparr>Path = ''/data/a.txt'', Size = 5, IsDir = False\<rparr>],
        stdout = [], stderr = []\<rparr>
   \<and> snd (aggregate ''/data'' 5 {} (ReadDir (Inr [FileEnt ''a.txt'' (Inr 5)]))
            (snd (aggregate ''/data'' 5 {} (ReadDir (Inr [FileEnt ''a.txt'' (Inr 5)]))
                    \<lparr>results = [], stdout = [], stderr = []\<rparr>)))
     = \<lparr>results = [\<lparr>Path = ''/data/a.txt'', Size = 5, IsDir = False\<rparr>,
                   \<lparr>Path = ''/data/a.txt'', Size = 5, IsDir = False\<rparr>],
        stdout = [], stderr = []\<rparr>"
  by (simp add: aggregate_def included_def path_eval addResult_def)

text \<open>
  C3, amended.  Two calls of the aggregator on the same tree with the same threshold and
  exclusion set return the same total and append the same entries, up to their order,
  whatever the schedules and whatever the state they start from; each keeps the entries it
  finds in \<open>results\<close>.  So the results of two calls are the same multiset when \<open>results\<close>
  is emptied in between, and the entries are there twice when it is not.  Likewise two
  runs of \<open>run\<close> that scan, the second starting in the state the first leaves: the first
  adds the entries of the walk and of the root to those it found, the second adds them
  again.
\<close>

theorem reruns_accumulate:
  "(aggregate_exec path threshold excludeSet d st (t1, st1)
      \<longrightarrow> aggregate_exec path threshold excludeSet d (st1\<lparr>results := rs\<rparr>) (t2, st2)
      \<longrightarrow> t2 = t1
          \<and> (\<exists>new1 new2.
                results st1 = results st @ new1 \<and> results st2 = rs @ new2
                \<and> mset new2 = mset new1
                \<and> mset new1 = mset (added (snd (walkDirRecursive path threshold excludeSet d)))))
   \<and> (run_prepare impl fs args st = (Inr (Ready scanPath threshold' excludeSet' d0), st0)
       \<longrightarrow> run_exec impl fs args st (r1, st1')
       \<longrightarrow> run_exec impl fs args st1' (r2, st2')
       \<longrightarrow> mset (results st1') =
             mset (results st)
             + mset (added (snd (walkDirRecursive scanPath threshold' excludeSet' d0)))
             + (if threshold' \<le> fst (walkDirRecursive scanPath threshold' excludeSet' d0)
                then {#\<lparr>Path = scanPath,
                         Size = fst (walkDirRecursive scanPath threshold' excludeSet' d0),
                         IsDir = True\<rparr>#}
                else {#})
           \<and> mset (results st2') =
               mset (results st1')
               + mset (added (snd (walkDirRecursive scanPath threshold' excludeSet' d0)))
               + (if threshold' \<le> fst (walkDirRecursive scanPath threshold' excludeSet' d0)
                  then {#\<lparr>Path = scanPath,
                           Size = fst (walkDirRecursive scanPath threshold' excludeSet' d0),
                           IsDir = True\<rparr>#}
                  else {#}))"
proof (intro conjI impI)
  assume first: "aggregate_exec path threshold excludeSet d st (t1, st1)"
    and second: "aggregate_exec path threshold excludeSet d (st1\<lparr>results := rs\<rparr>) (t2, st2)"
  from aggregate_exec_results [OF first] obtain new1 where
    t1: "t1 = fst (walkDirRecursive path threshold excludeSet d)"
    and new1: "results st1 = results st @ new1"
      "mset new1 = mset (added (snd (walkDirRecursive path threshold excludeSet d)))"
    by blast
  from aggregate_exec_results [OF second] obtain new2 where
    t2: "t2 = fst (walkDirRecursive path threshold excludeSet d)"
    and new2: "results st2 = rs @ new2"
      "mset new2 = mset (added (snd (walkDirRecursive path threshold excludeSet d)))"
    by auto
  from t1 t2 show "t2 = t1"
    by simp
  from new1 new2 show "\<exists>new1 new2.
      results st1 = results st @ new1 \<and> results st2 = rs @ new2
      \<and> mset new2 = mset new1
      \<and> mset new1 = mset (added (snd (walkDirRecursive path threshold excludeSet d)))"
    by auto
next
  assume prep: "run_prepare impl fs args st
                  = (Inr (Ready scanPath threshold' excludeSet' d0), st0)"
    and first: "run_exec impl fs args st (r1, st1')"
    and second: "run_exec impl fs args st1' (r2, st2')"
  from run_exec_results [OF prep first]
  show "mset (results st1') =
             mset (results st)
             + mset (added (snd (walkDirRecursive scanPath threshold' excludeSet' d0)))
             + (if threshold' \<le> fst (walkDirRecursive scanPath threshold' excludeSet' d0)
                then {#\<lparr>Path = scanPath,
                         Size = fst (walkDirRecursive scanPath threshold' excludeSet' d0),
                         IsDir = True\<rparr>#}
                else {#})" .
  have "fst (run_prepare impl fs args st1') = Inr (Ready scanPath threshold' excludeSet' d0)"
    using run_prepare_state [of impl fs args st1' st] prep by simp
  then obtain st0' where
    prep': "run_prepare impl fs args st1'
              = (Inr (Ready scanPath threshold' excludeSet' d0), st0')"
    by (metis prod.collapse)
  from run_exec_results [OF prep' second]
  show "mset (results st2') =
               mset (results st1')
               + mset (added (snd (walkDirRecursive scanPath threshold' excludeSet' d0)))
               + (if threshold' \<le> fst (walkDirRecursive scanPath threshold' excludeSet' d0)
                  then {#\<lparr>Path = scanPath,
                           Size = fst (walkDirRecursive scanPath threshold' excludeSet' d0),
                           IsDir = True\<rparr>#}
                  else {#})" .
qed

lemma rerun_walk:
  "walkDirRecursive ''/data'' 5 {} (ReadDir (Inr [FileEnt ''a.txt'' (Inr 5)]))
     = (5, [AddResult ''/data/a.txt'' 5 False])"
  by (simp add: included_def path_eval)

theorem reruns_accumulate_witness:
  "aggregate_exec ''/data'' 5 {} (ReadDir (Inr [FileEnt ''a.txt'' (Inr 5)])) empty_state
     (5, \<lparr>results = [\<lparr>Path = ''/data/a.txt'', Size = 5, IsDir = False\<rparr>],
          stdout = [], stderr = []\<rparr>)
   \<and> aggregate_exec ''/data'' 5 {} (ReadDir (Inr [FileEnt ''a.txt'' (Inr 5)]))
       \<lparr>results = [\<lparr>Path = ''/data/a.txt'', Size = 5, IsDir = False\<rparr>],
         stdout = [], stderr = []\<rparr>
       (5, \<lparr>results = [\<lparr>Path = ''/data/a.txt'', Size = 5, IsDir = False\<rparr>,
                        \<lparr>Path = ''/data/a.txt'', Size = 5, IsDir = False\<rparr>],
            stdout = [], stderr = []\<rparr>)
   \<and> mset (added (snd (walkDirRecursive ''/data'' 5 {}
                          (ReadDir (Inr [FileEnt ''a.txt'' (Inr 5)])))))
       = {#\<lparr>Path = ''/data/a.txt'', Size = 5, IsDir = False\<rparr>#}"
proof -
  let ?d = "ReadDir (Inr [FileEnt ''a.txt'' (Inr 5)])"
  let ?a = "\<lparr>Path = ''/data/a.txt'', Size = 5, IsDir = False\<rparr>"
  let ?st1 = "\<lparr>results = [?a], stdout = [], stderr = []\<rparr>"
  let ?st2 = "\<lparr>results = [?a, ?a], stdout = [], stderr = []\<rparr>"
  have walk: "walk_exec ''/data'' 5 {} ?d 5 [AddResult ''/data/a.txt'' 5 False]"
    using walk_exec_seq [of "''/data''" 5 "{}" ?d] by (simp only: rerun_walk fst_conv snd_conv)
  have first: "aggregate_exec ''/data'' 5 {} ?d empty_state (5, ?st1)"
    using aggregate_exec.intros [OF walk, of empty_state]
    by (simp add: empty_state_def addResult_def)
  have second: "aggregate_exec ''/data'' 5 {} ?d (?st1\<lparr>results := [?a]\<rparr>) (5, ?st2)"
    using aggregate_exec.intros [OF walk, of ?st1]
    by (simp add: addResult_def)
  note facts = reruns_accumulate [of "''/data''" 5 "{}" ?d empty_state 5 ?st1 "[?a]" 5 ?st2]
  from conjunct1 [OF facts, rule_format, OF first second] obtain new1 new2 where
    r: "results ?st1 = results empty_state @ new1"
    and m: "mset new1 = mset (added (snd (walkDirRecursive ''/data'' 5 {} ?d)))"
    by blast
  from r have "new1 = [?a]"
    by (simp add: empty_state_def)
  with m have "mset (added (snd (walkDirRecursive ''/data'' 5 {} ?d))) = {#?a#}"
    by (simp del: walkDirRecursive_readable)
  moreover from second have "aggregate_exec ''/data'' 5 {} ?d ?st1 (5, ?st2)"
    by simp
  ultimately show ?thesis
    using first by (simp only: simp_thms)
qed


subsection \<open>What \<open>parseSize\<close> rejects\<close>

text \<open>
  The strings \<^verbatim>\<open>ParseFloat\<close> accepts among those the first group of the pattern can hold
  are the decimal numbers of the grammar.
\<close>

lemma digit_or_dot:
  "regex_digit_or_dot c \<longleftrightarrow> is_digit c \<or> c = CHR ''.''"
  by (auto simp add: regex_digit_or_dot_def is_digit_def)

lemma not_digit_dot [simp]: "\<not> is_digit (CHR ''.'')"
  by (simp add: is_digit_def)

lemma decimal_syntax_spec:
  assumes "decimal_syntax s"
  shows "spec_decimal s"
proof -
  define k where "k = length (takeWhile is_digit s)"
  have take: "take k s = takeWhile is_digit s"
    unfolding k_def by (rule takeWhile_eq_take [symmetric])
  have drop: "drop k s = dropWhile is_digit s"
    unfolding k_def by (rule dropWhile_eq_drop [symmetric])
  have all: "\<forall>x \<in> set s. regex_digit_or_dot x"
    using assms by (simp add: decimal_syntax_def list_all_iff)
  have dots: "length (filter (\<lambda>c. c = CHR ''.'') s) \<le> 1"
    using assms by (simp add: decimal_syntax_def)
  have "\<forall>x \<in> set (takeWhile is_digit s). is_digit x"
    by (auto dest: set_takeWhileD)
  then have digits: "list_all is_digit (take k s)"
    by (simp add: take list_all_iff)
  have rest: "drop k s = [] \<or> (hd (drop k s) = CHR ''.'' \<and> list_all is_digit (tl (drop k s)))"
  proof (cases "dropWhile is_digit s")
    case Nil
    then show ?thesis by (simp add: drop)
  next
    case (Cons c r)
    have split: "takeWhile is_digit s @ c # r = s"
      using takeWhile_dropWhile_id [of is_digit s] by (simp add: Cons)
    have "\<not> is_digit (hd (dropWhile is_digit s))"
      by (rule hd_dropWhile) (simp add: Cons)
    then have "\<not> is_digit c"
      by (simp add: Cons)
    moreover have "c \<in> set s"
      by (subst split [symmetric]) simp
    ultimately have c: "c = CHR ''.''"
      using all by (auto simp add: digit_or_dot)
    have "length (filter (\<lambda>c. c = CHR ''.'') (takeWhile is_digit s @ c # r)) \<le> 1"
      using dots by (simp only: split)
    then have "filter (\<lambda>c. c = CHR ''.'') r = []"
      by (simp add: c)
    then have nodot: "\<forall>x \<in> set r. x \<noteq> CHR ''.''"
      by (simp add: filter_empty_conv)
    have "set r \<subseteq> set s"
      by (subst split [symmetric]) auto
    with all nodot have "\<forall>x \<in> set r. is_digit x"
      by (auto simp add: digit_or_dot)
    then have "list_all is_digit r"
      by (simp add: list_all_iff)
    with c show ?thesis
      by (simp add: drop Cons)
  qed
  have "k \<in> {0..length s}"
    by (simp add: k_def length_takeWhile_le)
  moreover have "list_ex is_digit s"
    using assms by (simp add: decimal_syntax_def)
  ultimately show ?thesis
    unfolding spec_decimal_def using digits rest by blast
qed

text \<open>Every unit the pattern accepts is a unit of the grammar.\<close>

lemma regex_unit_group_all: "list_all spec_unit regex_unit_group"
  by (simp add: regex_unit_group_def regex_unit_letters_def spec_unit_def spec_units_def
        kelvin_sign_def ToUpper_def)

lemma regex_unit_group_spec: "u \<in> set regex_unit_group \<Longrightarrow> spec_unit u"
  using regex_unit_group_all by (simp add: list_all_iff)

lemma FindStringSubmatch_syntax:
  assumes "FindStringSubmatch t = Some (num, u)"
    and "decimal_syntax num"
  shows "size_syntax t"
proof -
  define i where "i = length (takeWhile regex_digit_or_dot t)"
  define j where "j = i + length (takeWhile regex_space (dropWhile regex_digit_or_dot t))"
  from assms(1) have num: "num = takeWhile regex_digit_or_dot t"
    and u: "u = dropWhile regex_space (dropWhile regex_digit_or_dot t)"
    and unit: "u \<in> set regex_unit_group"
    by (simp_all add: FindStringSubmatch_def Let_def split: if_splits)
  have "take i t = num"
    unfolding i_def num by (rule takeWhile_eq_take [symmetric])
  then have number: "spec_decimal (take i t)"
    using assms(2) by (simp add: decimal_syntax_spec)
  have di: "drop i t = dropWhile regex_digit_or_dot t"
    unfolding i_def by (rule dropWhile_eq_drop [symmetric])
  have ji: "j - i = length (takeWhile regex_space (dropWhile regex_digit_or_dot t))"
    by (simp add: j_def)
  have between: "take (j - i) (drop i t)
                   = takeWhile regex_space (dropWhile regex_digit_or_dot t)"
    unfolding ji di by (rule takeWhile_eq_take [symmetric])
  have "\<forall>x \<in> set (takeWhile regex_space (dropWhile regex_digit_or_dot t)). regex_space x"
    by (auto dest: set_takeWhileD)
  then have spaces: "list_all regex_space (take (j - i) (drop i t))"
    by (simp add: between list_all_iff)
  have "drop j t = drop (j - i) (drop i t)"
    by (simp add: j_def add.commute)
  also have "\<dots> = u"
    unfolding ji di u by (rule dropWhile_eq_drop [symmetric])
  finally have "drop j t = u" .
  then have unit': "spec_unit (drop j t)"
    using unit by (simp add: regex_unit_group_spec)
  have i: "i \<in> {0..length t}"
    by (simp add: i_def length_takeWhile_le)
  have "length (takeWhile regex_space (dropWhile regex_digit_or_dot t))
          \<le> length (dropWhile regex_digit_or_dot t)"
    by (rule length_takeWhile_le)
  also have "\<dots> = length t - i"
    by (simp add: di [symmetric])
  finally have j: "j \<in> {i..length t}"
    using i by (simp add: j_def)
  from i j number spaces unit' show ?thesis
    unfolding size_syntax_def by blast
qed

lemma parseSize_fails:
  assumes "\<not> size_syntax (TrimSpace s)"
  shows "parseSize impl s = Inl (InvalidSizeFormat s)
    \<or> parseSize impl s
        = Inl (InvalidSizeNumber (takeWhile regex_digit_or_dot (TrimSpace s)))"
proof (cases "FindStringSubmatch (TrimSpace s)")
  case None
  then show ?thesis
    by (simp add: parseSize_def)
next
  case (Some groups)
  obtain num u where groups: "groups = (num, u)"
    by (cases groups)
  with Some have num: "num = takeWhile regex_digit_or_dot (TrimSpace s)"
    by (simp add: FindStringSubmatch_def Let_def split: if_splits)
  have "\<not> decimal_syntax num"
    using FindStringSubmatch_syntax Some groups assms by blast
  then have "ParseFloat num = None"
    by (simp add: ParseFloat_def)
  with Some groups num show ?thesis
    by (simp add: parseSize_def)
qed

lemma bex_upto_0: "(\<exists>k \<in> {m..0::nat}. P k) = (m = 0 \<and> P 0)"
  by auto

lemma bex_upto_Suc:
  "(\<exists>k \<in> {m..Suc n}. P k) = ((\<exists>k \<in> {m..n}. P k) \<or> (m \<le> Suc n \<and> P (Suc n)))"
  by (auto simp add: le_Suc_eq)

lemmas size_syntax_eval =
  size_syntax_def spec_size_form_def spec_decimal_def spec_unit_def spec_units_def
  kelvin_sign_def ToUpper_def is_digit_def regex_space_def bex_upto_0 bex_upto_Suc

text \<open>
  The claim C9 as stated fails: the pattern allows white space between the number and the
  unit, and \<open>parseSize\<close> trims the string first, so it returns a byte value for strings
  that are not a number followed by a unit.
\<close>

theorem parseSize_accepts_spaces:
  "\<not> spec_size_form ''10 M'' \<and> parseSize saturating ''10 M'' = Inr 10485760"
  by (simp add: spec_size_form_def spec_decimal_def spec_units_def bex_upto_0 bex_upto_Suc
        parseSize_eval float64_eval)

text \<open>
  C9, amended.  \<open>parseSize\<close> returns an error, and so no byte value, for every string that,
  once the white space around it is trimmed, is not a decimal number, white space or none,
  and a unit or none (\<open>size_syntax\<close>): the format error when the pattern does not match, the
  number error when \<^verbatim>\<open>ParseFloat\<close> refuses the digits and points the pattern matched.  It
  returns the format error for \<^verbatim>\<open>""\<close>, \<^verbatim>\<open>"abc"\<close>, \<^verbatim>\<open>"100XYZ"\<close> and \<^verbatim>\<open>"-50M"\<close>, and for every
  string that starts with a minus sign once trimmed.
\<close>

theorem parseSize_rejects:
  "(\<not> size_syntax (TrimSpace s)
      \<longrightarrow> parseSize impl s = Inl (InvalidSizeFormat s)
          \<or> parseSize impl s
              = Inl (InvalidSizeNumber (takeWhile regex_digit_or_dot (TrimSpace s))))
   \<and> parseSize impl [] = Inl (InvalidSizeFormat [])
   \<and> parseSize impl ''abc'' = Inl (InvalidSizeFormat ''abc'')
   \<and> parseSize impl ''100XYZ'' = Inl (InvalidSizeFormat ''100XYZ'')
   \<and> parseSize impl ''-50M'' = Inl (InvalidSizeFormat ''-50M'')
   \<and> (TrimSpace s = CHR ''-'' # r \<longrightarrow> parseSize impl s = Inl (InvalidSizeFormat s))"
proof (intro conjI impI)
  assume "\<not> size_syntax (TrimSpace s)"
  then show "parseSize impl s = Inl (InvalidSizeFormat s)
    \<or> parseSize impl s
        = Inl (InvalidSizeNumber (takeWhile regex_digit_or_dot (TrimSpace s)))"
    by (rule parseSize_fails)
next
  show "parseSize impl [] = Inl (InvalidSizeFormat [])"
    by (simp add: parseSize_eval)
next
  show "parseSize impl ''abc'' = Inl (InvalidSizeFormat ''abc'')"
    by (simp add: parseSize_eval)
next
  show "parseSize impl ''100XYZ'' = Inl (InvalidSizeFormat ''100XYZ'')"
    by (simp add: parseSize_eval)
next
  show "parseSize impl ''-50M'' = Inl (InvalidSizeFormat ''-50M'')"
    by (simp add: parseSize_eval)
next
  assume "TrimSpace s = CHR ''-'' # r"
  then show "parseSize impl s = Inl (InvalidSizeFormat s)"
    by (simp add: parseSize_def FindStringSubmatch_def regex_digit_or_dot_def)
qed

lemma trimmed_example: "TrimSpace '' 1.2.3'' = ''1.2.3''"
  by (simp add: TrimSpace_def TrimLeftOf.simps unicode_space_encodings_def)

lemma not_size_syntax_example: "\<not> size_syntax ''1.2.3''"
  by (simp add: size_syntax_eval)

theorem parseSize_rejects_witness:
  "\<not> size_syntax (TrimSpace '' 1.2.3'')
   \<and> parseSize saturating '' 1.2.3'' = Inl (InvalidSizeNumber ''1.2.3'')
   \<and> TrimSpace '' -5'' = CHR ''-'' # ''5''
   \<and> parseSize saturating '' -5'' = Inl (InvalidSizeFormat '' -5'')"
proof -
  have no: "\<not> size_syntax (TrimSpace '' 1.2.3'')"
    by (simp only: trimmed_example not_size_syntax_example simp_thms)
  have minus: "TrimSpace '' -5'' = CHR ''-'' # ''5''"
    by (simp add: TrimSpace_def TrimLeftOf.simps unicode_space_encodings_def)
  have "parseSize saturating '' 1.2.3'' \<noteq> Inl (InvalidSizeFormat '' 1.2.3'')"
    by (simp add: parseSize_eval)
  with conjunct1 [OF parseSize_rejects [of "'' 1.2.3''" saturating "[]"], rule_format, OF no]
  have "parseSize saturating '' 1.2.3''
          = Inl (InvalidSizeNumber (takeWhile regex_digit_or_dot (TrimSpace '' 1.2.3'')))"
    by blast
  then have number: "parseSize saturating '' 1.2.3'' = Inl (InvalidSizeNumber ''1.2.3'')"
    by (simp add: trimmed_example regex_digit_or_dot_def)
  have "parseSize saturating '' -5'' = Inl (InvalidSizeFormat '' -5'')"
    by (rule conjunct2 [OF conjunct2 [OF conjunct2 [OF conjunct2 [OF conjunct2
          [OF parseSize_rejects [of "'' -5''" saturating "''5''"]]]]], rule_format, OF minus])
  with no number minus show ?thesis
    by (simp only: simp_thms)
qed


subsection \<open>A size that does not parse\<close>











subsection \<open>Rounding a decimal number and scaling it by a power of two\<close>

lemma bit_length_bounds:
  "0 < n \<Longrightarrow> 2 ^ (bit_length n - 1) \<le> n \<and> n < 2 ^ bit_length n"
proof (induction n rule: bit_length.induct)
  case (1 n)
  show ?case
  proof (cases "n div 2 = 0")
    case True
    with "1.prems" have "n = 1"
      by (simp add: div_eq_0_iff) 
    then show ?thesis
      by simp
  next
    case False
    with 1 have ih: "2 ^ (bit_length (n div 2) - 1) \<le> n div 2"
      "n div 2 < 2 ^ bit_length (n div 2)"
      by simp_all
    have pos: "0 < bit_length (n div 2)"
      using False by (simp add: bit_length.simps [of "n div 2"])
    have eq: "bit_length n = Suc (bit_length (n div 2))"
      using "1.prems" by (simp add: bit_length.simps [of n])
    have "2 ^ (bit_length n - 1) = 2 * 2 ^ (bit_length (n div 2) - 1)"
      using pos by (simp add: eq flip: power_Suc)
    also have "\<dots> \<le> 2 * (n div 2)"
      using ih(1) by simp
    also have "\<dots> \<le> n"
      by simp
    finally have low: "2 ^ (bit_length n - 1) \<le> n" .
    have "n < 2 * (n div 2) + 2"
      by presburger
    also have "\<dots> \<le> 2 * 2 ^ bit_length (n div 2)"
      using ih(2) by simp
    finally have "n < 2 ^ bit_length n"
      by (simp add: eq)
    with low show ?thesis ..
  qed
qed

lemma bit_length_unique:
  "2 ^ j \<le> n \<Longrightarrow> n < 2 ^ Suc j \<Longrightarrow> bit_length n = Suc j"
proof (induction j arbitrary: n)
  case 0
  then have "n = 1" by simp
  then show ?case by simp
next
  case (Suc j)
  have "2 ^ j \<le> n div 2"
    using Suc.prems(1) by simp
  moreover have "n div 2 < 2 ^ Suc j"
    using Suc.prems(2) by simp
  ultimately have "bit_length (n div 2) = Suc j"
    by (rule Suc.IH)
  moreover have "0 < (2::nat) ^ Suc j"
    by simp
  then have "n \<noteq> 0"
    using Suc.prems(1) by linarith
  ultimately show ?case
    by (simp add: bit_length.simps [of n])
qed

lemma bit_length_shift:
  assumes "0 < m"
  shows "bit_length (m * 2 ^ a) = bit_length m + a"
proof -
  from bit_length_bounds [OF assms] have b: "2 ^ (bit_length m - 1) \<le> m" "m < 2 ^ bit_length m"
    by simp_all
  have pos: "0 < bit_length m"
    using assms by (simp add: bit_length.simps [of m])
  have "2 ^ (bit_length m - 1 + a) \<le> m * 2 ^ a"
    using b(1) by (simp add: power_add)
  moreover have "m * 2 ^ a < 2 ^ Suc (bit_length m - 1 + a)"
    using b(2) pos by (simp add: power_add flip: power_Suc) 
  ultimately have "bit_length (m * 2 ^ a) = Suc (bit_length m - 1 + a)"
    by (rule bit_length_unique)
  with pos show ?thesis
    by simp
qed

lemma bit_length_power: "bit_length (2 ^ j) = Suc j"
  by (rule bit_length_unique) simp_all

lemma round_half_even_cases:
  "round_half_even n d = n div d \<or> round_half_even n d = n div d + 1"
  by (simp add: round_half_even_def Let_def)

lemma round_half_even_exact: "0 < d \<Longrightarrow> round_half_even (q * d) d = q"
  by (simp add: round_half_even_def Let_def)

lemma round_half_even_bounds:
  assumes "0 < d"
  shows "2 * round_half_even n d * d \<le> 2 * n + d \<and> 2 * n \<le> 2 * round_half_even n d * d + d"
proof -
  define q r where "q = n div d" and "r = n mod d"
  have n: "n = q * d + r"
    by (simp add: q_def r_def)
  have r: "r < d"
    using assms by (simp add: r_def)
  consider "2 * r < d" "round_half_even n d = q"
    | "d \<le> 2 * r" "round_half_even n d = q \<or> round_half_even n d = q + 1"
    | "d \<le> 2 * r" "d < 2 * r" "round_half_even n d = q + 1"
    by (cases "2 * r < d"; cases "d < 2 * r")
       (auto simp add: round_half_even_def Let_def q_def r_def)
  then show ?thesis
  proof cases
    case 1
    then show ?thesis
      using r by (simp add: n algebra_simps)
  next
    case 2
    show ?thesis
    proof (cases "d < 2 * r")
      case True
      then have "round_half_even n d = q + 1"
        by (simp add: round_half_even_def Let_def q_def r_def)
      then show ?thesis
        using r True by (simp add: n algebra_simps)
    next
      case False
      with 2(1) have "d = 2 * r" by simp
      with 2(2) show ?thesis
        by (auto simp add: n algebra_simps)
    qed
  next
    case 3
    then show ?thesis
      using r by (simp add: n algebra_simps)
  qed
qed

lemma ilog2_ratio_bounds:
  assumes "0 < n" and "0 < d"
  shows "(0 \<le> ilog2_ratio n d
            \<longrightarrow> d * 2 ^ nat (ilog2_ratio n d) \<le> n \<and> n < 2 * (d * 2 ^ nat (ilog2_ratio n d)))
    \<and> (ilog2_ratio n d < 0
            \<longrightarrow> d \<le> n * 2 ^ nat (- ilog2_ratio n d)
                \<and> n * 2 ^ nat (- ilog2_ratio n d) < 2 * d)"
proof -
  define b c where "b = bit_length n" and "c = bit_length d"
  from bit_length_bounds [OF assms(1)] have n: "2 ^ (b - 1) \<le> n" "n < 2 ^ b"
    by (simp_all add: b_def)
  from bit_length_bounds [OF assms(2)] have d: "2 ^ (c - 1) \<le> d" "d < 2 ^ c"
    by (simp_all add: c_def)
  have b: "0 < b"
    using assms(1) by (simp add: b_def bit_length.simps [of n])
  have c: "0 < c"
    using assms(2) by (simp add: c_def bit_length.simps [of d])
  have two_b: "(2::nat) ^ b = 2 * 2 ^ (b - 1)"
    using b by (cases b) simp_all
  have two_c: "(2::nat) ^ c = 2 * 2 ^ (c - 1)"
    using c by (cases c) simp_all
  show ?thesis
  proof (cases "c \<le> b")
    case True
    define j where "j = b - c"
    have kk: "int (bit_length n) - int (bit_length d) = int j"
      using True by (simp add: j_def b_def c_def)
    have bj: "b = c + j"
      using True by (simp add: j_def)
    show ?thesis
    proof (cases "d * 2 ^ j \<le> n")
      case test: True
      then have k: "ilog2_ratio n d = int j"
        by (simp add: ilog2_ratio_def Let_def kk)
      have "n < 2 ^ c * 2 ^ j"
        using n(2) by (simp add: bj power_add)
      also have "\<dots> = 2 * (2 ^ (c - 1) * 2 ^ j)"
        by (simp add: two_c)
      also have "\<dots> \<le> 2 * (d * 2 ^ j)"
        using d(1) by simp
      finally show ?thesis
        using test by (simp add: k)
    next
      case test: False
      then have k: "ilog2_ratio n d = int j - 1"
        by (simp add: ilog2_ratio_def Let_def kk)
      show ?thesis
      proof (cases j)
        case 0
        with test have "n < d" by simp
        moreover have "d < 2 * n"
          using d(2) n(1) by (simp add: bj 0 two_c)
        ultimately show ?thesis
          by (simp add: k 0)
      next
        case (Suc j')
        have "d * 2 ^ j' < 2 ^ c * 2 ^ j'"
          using d(2) by simp
        also have "\<dots> = 2 ^ (b - 1)"
          by (simp add: bj Suc power_add)
        finally have "d * 2 ^ j' \<le> n"
          using n(1) by simp
        moreover have "n < 2 * (d * 2 ^ j')"
          using test by (simp add: Suc)
        ultimately show ?thesis
          by (simp add: k Suc)
      qed
    qed
  next
    case False
    define j where "j = c - b"
    have j: "0 < j"
      using False by (simp add: j_def)
    have kk: "int (bit_length n) - int (bit_length d) = - int j"
      using False by (simp add: j_def b_def c_def)
    have cj: "c = b + j"
      using False by (simp add: j_def)
    show ?thesis
    proof (cases "d \<le> n * 2 ^ j")
      case test: True
      then have k: "ilog2_ratio n d = - int j"
        using j by (simp add: ilog2_ratio_def Let_def kk)
      have "n * 2 ^ j < 2 ^ b * 2 ^ j"
        using n(2) by simp
      also have "\<dots> = 2 ^ c"
        by (simp add: cj power_add)
      also have "\<dots> = 2 * 2 ^ (c - 1)"
        by (rule two_c)
      also have "\<dots> \<le> 2 * d"
        using d(1) by simp
      finally show ?thesis
        using test j by (simp add: k)
    next
      case test: False
      then have k: "ilog2_ratio n d = - int j - 1"
        using j by (simp add: ilog2_ratio_def Let_def kk)
      have nat: "nat (- (- int j - 1)) = Suc j"
        by simp
      have "d < 2 ^ b * 2 ^ j"
        using d(2) by (simp add: cj power_add)
      also have "\<dots> = 2 ^ (b - 1) * 2 ^ Suc j"
        by (simp add: two_b)
      also have "\<dots> \<le> n * 2 ^ Suc j"
        using n(1) by simp
      finally have "d \<le> n * 2 ^ Suc j"
        by simp
      moreover have "n * 2 ^ Suc j < 2 * d"
        using test by simp
      ultimately show ?thesis
        unfolding k nat by simp
    qed
  qed
qed

lemma round_half_even_floor:
  assumes "0 < d" and "d < 2 * t"
  shows "round_half_even (x * t) d div t = x div d"
proof (rule div_nat_eqI)
  define m where "m = round_half_even (x * t) d"
  define q r where "q = x div d" and "r = x mod d"
  have x: "x = q * d + r"
    by (simp add: q_def r_def)
  have r: "r < d"
    using assms(1) by (simp add: r_def)
  from round_half_even_bounds [OF assms(1), of "x * t"]
  have up: "2 * m * d \<le> 2 * (x * t) + d" and low: "2 * (x * t) \<le> 2 * m * d + d"
    by (simp_all add: m_def)
  show "t * (x div d) \<le> round_half_even (x * t) d"
  proof (rule ccontr)
    assume "\<not> t * (x div d) \<le> round_half_even (x * t) d"
    then have "m + 1 \<le> t * q"
      by (simp add: m_def q_def not_le Suc_le_eq)
    then have "(m + 1) * d \<le> t * q * d"
      by (rule mult_le_mono1)
    then have "2 * m * d + 2 * d \<le> 2 * (q * d * t)"
      by (simp add: algebra_simps)
    also have "\<dots> \<le> 2 * (x * t)"
      by (simp add: x)
    finally show False
      using low assms(1) by simp
  qed
  show "round_half_even (x * t) d < t * Suc (x div d)"
  proof (rule ccontr)
    assume "\<not> round_half_even (x * t) d < t * Suc (x div d)"
    then have "t * Suc q \<le> m"
      by (simp add: m_def q_def not_less)
    then have "t * Suc q * d \<le> m * d"
      by (rule mult_le_mono1)
    then have "2 * ((q + 1) * t * d) \<le> 2 * (x * t) + d"
      using up by (simp add: algebra_simps)
    moreover have "x + 1 \<le> (q + 1) * d"
      using r by (simp add: x)
    then have "(x + 1) * t \<le> (q + 1) * d * t"
      by (rule mult_le_mono1)
    then have "2 * (x * t) + 2 * t \<le> 2 * ((q + 1) * t * d)"
      by (simp add: algebra_simps)
    ultimately show False
      using assms(2) by simp
  qed
qed

lemma float64_round_decimal:
  assumes "0 < n" and "0 < d" and "n < 2 ^ 53" and "d < 2 ^ 1000"
  shows "\<exists>j. j \<le> 1052
           \<and> float64_round n d = Finite (round_half_even (n * 2 ^ j) d) (- int j)
           \<and> 2 ^ 52 * d \<le> n * 2 ^ j \<and> n * 2 ^ j < 2 ^ 53 * d"
proof -
  define k where "k = ilog2_ratio n d"
  note spec = ilog2_ratio_bounds [OF assms(1,2), folded k_def]
  have upper: "k \<le> 52"
  proof (rule ccontr)
    assume "\<not> k \<le> 52"
    then have "53 \<le> nat k" and "0 \<le> k"
      by simp_all
    then have "(2::nat) ^ 53 \<le> 2 ^ nat k"
      by (intro power_increasing) simp_all
    also have "\<dots> \<le> d * 2 ^ nat k"
      using assms(2) by simp
    also have "\<dots> \<le> n"
      using spec \<open>0 \<le> k\<close> by simp
    finally show False
      using assms(3) by simp
  qed
  have lower: "- 1000 \<le> k"
  proof (rule ccontr)
    assume "\<not> - 1000 \<le> k"
    then have "1001 \<le> nat (- k)" and "k < 0"
      by simp_all
    then have "(2::nat) ^ 1001 \<le> 2 ^ nat (- k)"
      by (intro power_increasing) simp_all
    also have "\<dots> \<le> n * 2 ^ nat (- k)"
      using assms(1) by simp
    also have "\<dots> < 2 * d"
      using spec \<open>k < 0\<close> by simp
    also have "\<dots> < 2 * 2 ^ 1000"
      using assms(4) by simp
    finally show False
      by simp
  qed
  define j where "j = nat (52 - k)"
  have j: "int j = 52 - k"
    using upper by (simp add: j_def)
  have e: "max k (- 1022) - 52 = - int j"
    using lower by (simp add: j)
  have j_le: "j \<le> 1052"
    using lower by (simp add: j_def)
  have m: "(if 0 \<le> - int j then round_half_even n (d * 2 ^ nat (- int j))
            else round_half_even (n * 2 ^ nat (- (- int j))) d)
           = round_half_even (n * 2 ^ j) d"
  proof (cases "j = 0")
    case True
    then show ?thesis by simp
  next
    case False
    then have "\<not> 0 \<le> - int j"
      by simp
    moreover have "nat (- (- int j)) = j"
      by simp
    ultimately show ?thesis
      by (simp only: if_False)
  qed
  have round: "float64_round n d = Finite (round_half_even (n * 2 ^ j) d) (- int j)"
    using assms(1) unfolding float64_round_def Let_def k_def [symmetric] e m
    by simp
  have bounds: "2 ^ 52 * d \<le> n * 2 ^ j \<and> n * 2 ^ j < 2 ^ 53 * d"
  proof (cases "0 \<le> k")
    case True
    then have jk: "j + nat k = 52"
      using j by simp
    from True spec have s: "d * 2 ^ nat k \<le> n" "n < 2 * (d * 2 ^ nat k)"
      by simp_all
    have p: "(2::nat) ^ 52 = 2 ^ nat k * 2 ^ j"
      by (simp only: jk [symmetric] power_add mult.commute)
    have "2 ^ 52 * d = (d * 2 ^ nat k) * 2 ^ j"
      by (simp only: p mult_ac)
    also have "\<dots> \<le> n * 2 ^ j"
      using s(1) by (rule mult_le_mono1)
    finally have lo: "2 ^ 52 * d \<le> n * 2 ^ j" .
    have "n * 2 ^ j < (2 * (d * 2 ^ nat k)) * 2 ^ j"
      using s(2) by simp
    also have "\<dots> = 2 * (2 ^ 52 * d)"
      by (simp only: p mult_ac)
    also have "\<dots> = 2 ^ 53 * d"
      by simp
    finally have "n * 2 ^ j < 2 ^ 53 * d" .
    with lo show ?thesis ..
  next
    case False
    then have jk: "j = 52 + nat (- k)"
      using j by simp
    from False spec have s: "d \<le> n * 2 ^ nat (- k)" "n * 2 ^ nat (- k) < 2 * d"
      by simp_all
    have p: "n * 2 ^ j = 2 ^ 52 * (n * 2 ^ nat (- k))"
      by (simp only: jk power_add mult_ac)
    have "2 ^ 52 * d \<le> 2 ^ 52 * (n * 2 ^ nat (- k))"
      using s(1) by (rule mult_le_mono2)
    then have lo: "2 ^ 52 * d \<le> n * 2 ^ j"
      by (simp only: p)
    have "2 ^ 52 * (n * 2 ^ nat (- k)) < 2 ^ 52 * (2 * d)"
      using s(2) by simp
    also have "\<dots> = 2 ^ 53 * d"
      by simp
    finally have "n * 2 ^ j < 2 ^ 53 * d"
      by (simp only: p)
    with lo show ?thesis ..
  qed
  from j_le round bounds show ?thesis
    by blast
qed

lemma ilog2_ratio_scaled:
  assumes "2 ^ B \<le> m" and "m < 2 ^ Suc B"
  shows "ilog2_ratio (m * 2 ^ a) (2 ^ j) = int B + int a - int j"
proof -
  have pos: "0 < m"
    using assms(1) by (metis not_gr_zero not_less zero_less_numeral zero_less_power le_zero_eq)
  have "bit_length m = Suc B"
    using assms by (rule bit_length_unique)
  then have bl: "int (bit_length (m * 2 ^ a)) - int (bit_length (2 ^ j :: nat))
                   = int B + int a - int j"
    by (simp add: bit_length_shift [OF pos] bit_length_power)
  have test: "(if 0 \<le> int B + int a - int j
               then 2 ^ j * 2 ^ nat (int B + int a - int j) \<le> m * 2 ^ a
               else 2 ^ j \<le> m * 2 ^ a * 2 ^ nat (- (int B + int a - int j)))"
  proof (cases "0 \<le> int B + int a - int j")
    case True
    then have "j + nat (int B + int a - int j) = B + a"
      by simp
    then have "(2::nat) ^ j * 2 ^ nat (int B + int a - int j) = 2 ^ B * 2 ^ a"
      by (simp only: power_add [symmetric])
    also have "\<dots> \<le> m * 2 ^ a"
      using assms(1) by (rule mult_le_mono1)
    finally show ?thesis
      using True by simp
  next
    case False
    then have "B + a + nat (- (int B + int a - int j)) = j"
      by simp
    then have "(2::nat) ^ j = 2 ^ B * 2 ^ a * 2 ^ nat (- (int B + int a - int j))"
      by (simp only: power_add [symmetric])
    also have "\<dots> \<le> m * 2 ^ a * 2 ^ nat (- (int B + int a - int j))"
      using assms(1) by (intro mult_le_mono1)
    finally show ?thesis
      using False by simp
  qed
  show ?thesis
    unfolding ilog2_ratio_def Let_def bl by (rule if_P) (rule test)
qed

lemma float64_round_scaled_below:
  assumes "2 ^ 52 \<le> m" and "m < 2 ^ 53" and "a \<le> j" and "j \<le> 1052"
  shows "float64_round (m * 2 ^ a) (2 ^ j) = Finite m (int a - int j)"
proof -
  have k: "ilog2_ratio (m * 2 ^ a) (2 ^ j) = int 52 + int a - int j"
    using assms(1,2) by (intro ilog2_ratio_scaled) simp_all
  have e: "max (int 52 + int a - int j) (- 1022) - 52 = int a - int j"
    using assms(4) by simp
  have pos: "m * 2 ^ a \<noteq> 0"
    using assms(1) by auto
  have m: "(if 0 \<le> int a - int j
            then round_half_even (m * 2 ^ a) (2 ^ j * 2 ^ nat (int a - int j))
            else round_half_even (m * 2 ^ a * 2 ^ nat (- (int a - int j))) (2 ^ j)) = m"
  proof (cases "a = j")
    case True
    then show ?thesis
      by (simp add: round_half_even_exact)
  next
    case False
    with assms(3) have lt: "\<not> 0 \<le> int a - int j" and sum: "a + nat (- (int a - int j)) = j"
      by simp_all
    have "(2::nat) ^ a * 2 ^ nat (- (int a - int j)) = 2 ^ j"
      by (simp only: power_add [symmetric] sum)
    then have "m * 2 ^ a * 2 ^ nat (- (int a - int j)) = m * 2 ^ j"
      by (simp only: mult.assoc)
    then show ?thesis
      by (simp only: lt if_False round_half_even_exact zero_less_power zero_less_numeral)
  qed
  have small: "\<not> (971 < int a - int j \<or> (int a - int j = 971 \<and> 2 ^ 53 \<le> m))"
    using assms(3) by simp
  show ?thesis
    unfolding float64_round_def Let_def k e m using pos small by (simp only: if_False)
qed

lemma float64_round_scaled_top:
  assumes "a \<le> j" and "j \<le> 1052"
  shows "float64_round (2 ^ 53 * 2 ^ a) (2 ^ j) = Finite (2 ^ 52) (int a - int j + 1)"
proof -
  have k: "ilog2_ratio (2 ^ 53 * 2 ^ a) (2 ^ j) = int 53 + int a - int j"
    by (intro ilog2_ratio_scaled) simp_all
  have e: "max (int 53 + int a - int j) (- 1022) - 52 = int a - int j + 1"
    using assms(2) by simp
  have pos: "(2::nat) ^ 53 * 2 ^ a \<noteq> 0"
    by simp
  have m: "(if 0 \<le> int a - int j + 1
            then round_half_even (2 ^ 53 * 2 ^ a) (2 ^ j * 2 ^ nat (int a - int j + 1))
            else round_half_even (2 ^ 53 * 2 ^ a * 2 ^ nat (- (int a - int j + 1))) (2 ^ j))
           = 2 ^ 52"
  proof (cases "0 \<le> int a - int j + 1")
    case True
    then have "j + nat (int a - int j + 1) = Suc a"
      by simp
    then have "(2::nat) ^ j * 2 ^ nat (int a - int j + 1) = 2 ^ Suc a"
      by (simp only: power_add [symmetric])
    moreover have "(2::nat) ^ 53 * 2 ^ a = 2 ^ 52 * 2 ^ Suc a"
      by simp
    ultimately show ?thesis
      using True by (simp only: if_True round_half_even_exact zero_less_power zero_less_numeral)
  next
    case False
    then have "53 + a + nat (- (int a - int j + 1)) = 52 + j"
      by simp
    then have "(2::nat) ^ 53 * 2 ^ a * 2 ^ nat (- (int a - int j + 1)) = 2 ^ 52 * 2 ^ j"
      by (simp only: power_add [symmetric])
    then show ?thesis
      using False
      by (simp only: if_False round_half_even_exact zero_less_power zero_less_numeral)
  qed
  have small: "\<not> (971 < int a - int j + 1 \<or> (int a - int j + 1 = 971 \<and> (2::nat) ^ 53 \<le> 2 ^ 52))"
    using assms(1) by simp
  show ?thesis
    unfolding float64_round_def Let_def k e m using pos small by (simp only: if_False)
qed

lemma float64_trunc_top:
  assumes "a \<le> j"
  shows "float64_trunc (2 ^ 52) (int a - int j + 1) = 2 ^ 53 div 2 ^ (j - a)"
proof (cases "a = j")
  case True
  then show ?thesis
    by (simp add: float64_trunc_def)
next
  case False
  with assms obtain i where j: "j = Suc (a + i)"
    by (metis Suc_leI le_neq_implies_less less_imp_Suc_add add_Suc_right)
  have e: "int a - int j + 1 = - int i"
    by (simp add: j)
  have "(2::nat) ^ 53 div 2 ^ (j - a) = (2 * 2 ^ 52) div (2 * 2 ^ i)"
    by (simp add: j)
  also have "\<dots> = 2 ^ 52 div 2 ^ i"
    by (simp only: div_mult_mult1 [of 2] zero_neq_numeral not_False_eq_True)
  finally have half: "(2::nat) ^ 53 div 2 ^ (j - a) = 2 ^ 52 div 2 ^ i" .
  show ?thesis
  proof (cases "i = 0")
    case True
    then have "float64_trunc (2 ^ 52) (- int i) = 2 ^ 52 div 2 ^ i"
      by (simp add: float64_trunc_def)
    then show ?thesis
      by (simp only: e half)
  next
    case False
    then have "\<not> 0 \<le> - int i" and "nat (- (- int i)) = i"
      by simp_all
    then show ?thesis
      by (simp only: e half float64_trunc_def if_False)
  qed
qed

lemma float64_round_scaled:
  assumes "2 ^ 52 \<le> m" and "m \<le> 2 ^ 53" and "a \<le> j" and "j \<le> 1052"
  shows "\<exists>m' e'. float64_round (m * 2 ^ a) (2 ^ j) = Finite m' e'
                 \<and> float64_trunc m' e' = m div 2 ^ (j - a)"
proof (cases "m = 2 ^ 53")
  case True
  with float64_round_scaled_top [OF assms(3,4)] float64_trunc_top [OF assms(3)]
  show ?thesis
    by simp
next
  case False
  with assms(2) have "m < 2 ^ 53"
    by simp
  from float64_round_scaled_below [OF assms(1) this assms(3,4)]
  have "float64_round (m * 2 ^ a) (2 ^ j) = Finite m (int a - int j)" .
  moreover have "float64_trunc m (int a - int j) = m div 2 ^ (j - a)"
  proof (cases "a = j")
    case True
    then show ?thesis
      by (simp add: float64_trunc_def)
  next
    case False
    with assms(3) have "\<not> 0 \<le> int a - int j" and "nat (- (int a - int j)) = j - a"
      by simp_all
    then show ?thesis
      by (simp only: float64_trunc_def if_False)
  qed
  ultimately show ?thesis
    by blast
qed

lemma float64_mul_nat_scaled:
  "float64_mul_nat (Finite m (- int j)) (2 ^ a) = float64_round (m * 2 ^ a) (2 ^ j)"
proof (cases "j = 0")
  case True
  then show ?thesis
    by (simp add: float64_ratio_def)
next
  case False
  then have "\<not> 0 \<le> - int j" and "nat (0 - (- int j)) = j"
    by simp_all
  then show ?thesis
    by (simp add: float64_ratio_def)
qed

lemma rounded_mantissa:
  assumes "0 < d" and "2 ^ 52 * d \<le> x" and "x < 2 ^ 53 * d"
  shows "2 ^ 52 \<le> round_half_even x d \<and> round_half_even x d \<le> 2 ^ 53"
proof -
  have "(2 ^ 52 * d) div d \<le> x div d"
    using assms(2) by (rule div_le_mono)
  then have low: "2 ^ 52 \<le> x div d"
    using assms(1) by simp
  have "x div d < 2 ^ 53"
    using assms(3) by (rule less_mult_imp_div_less)
  with low round_half_even_cases [of x d] show ?thesis
    by auto
qed

lemma parse_exact:
  assumes "0 < d" and "d < 2 ^ 1000" and "n < 2 ^ 53"
  shows "\<exists>m e. float64_round n d = Finite m e
               \<and> uint64_of_float64 impl (Finite m e) = word_of_nat (n div d)"
proof (cases "n = 0")
  case True
  then show ?thesis
    by (simp add: float64_round_def float64_trunc_def)
next
  case False
  then have "0 < n" by simp
  from float64_round_decimal [OF this assms(1,3,2)] obtain j where
    round: "float64_round n d = Finite (round_half_even (n * 2 ^ j) d) (- int j)"
    and low: "2 ^ 52 * d \<le> n * 2 ^ j" and high: "n * 2 ^ j < 2 ^ 53 * d"
    by blast
  have "n * 2 ^ j < 2 ^ 53 * 2 ^ j"
    using assms(3) by simp
  with low have "2 ^ 52 * d < 2 ^ 53 * 2 ^ j"
    by (rule le_less_trans)
  also have "(2::nat) ^ 53 * 2 ^ j = 2 ^ 52 * (2 * 2 ^ j)"
    by simp
  finally have d: "d < 2 * 2 ^ j"
    using mult_less_cancel1 [of "2 ^ 52" d "2 * 2 ^ j"] by blast
  have trunc: "float64_trunc (round_half_even (n * 2 ^ j) d) (- int j)
                 = round_half_even (n * 2 ^ j) d div 2 ^ j"
  proof (cases "j = 0")
    case True
    then show ?thesis
      by (simp add: float64_trunc_def)
  next
    case False
    then have "\<not> 0 \<le> - int j" and "nat (- (- int j)) = j"
      by simp_all
    then show ?thesis
      by (simp only: float64_trunc_def if_False)
  qed
  have floor: "round_half_even (n * 2 ^ j) d div 2 ^ j = n div d"
    using assms(1) d by (rule round_half_even_floor)
  have "n div d \<le> n"
    by simp
  also have "n < 2 ^ 64"
    using assms(3) by simp
  finally have "n div d < 2 ^ 64" .
  then have "uint64_of_float64 impl (Finite (round_half_even (n * 2 ^ j) d) (- int j))
               = word_of_nat (n div d)"
    by (simp add: trunc floor)
  with round show ?thesis
    by blast
qed

lemma parse_scale_exact:
  assumes "0 < d" and "d < 2 ^ 1000" and "n * 2 ^ a < 2 ^ 53"
  shows "\<exists>m e. float64_round n d = Finite m e
               \<and> uint64_of_float64 impl (float64_mul_nat (Finite m e) (2 ^ a))
                   = word_of_nat (n * 2 ^ a div d)"
proof (cases "n = 0")
  case True
  then show ?thesis
    by (simp add: float64_round_def float64_ratio_def float64_trunc_def)
next
  case False
  then have pos: "0 < n" by simp
  have "n \<le> n * 2 ^ a"
    by simp
  then have n: "n < 2 ^ 53"
    using assms(3) by (rule le_less_trans)
  from float64_round_decimal [OF pos assms(1) n assms(2)] obtain j where
    j: "j \<le> 1052"
    and round: "float64_round n d = Finite (round_half_even (n * 2 ^ j) d) (- int j)"
    and low: "2 ^ 52 * d \<le> n * 2 ^ j" and high: "n * 2 ^ j < 2 ^ 53 * d"
    by blast
  define m where "m = round_half_even (n * 2 ^ j) d"
  from rounded_mantissa [OF assms(1) low high] have m: "2 ^ 52 \<le> m" "m \<le> 2 ^ 53"
    by (simp_all add: m_def)
  have "2 ^ 52 * d * 2 ^ a \<le> n * 2 ^ j * 2 ^ a"
    using low by (rule mult_le_mono1)
  also have "\<dots> = n * 2 ^ a * 2 ^ j"
    by simp
  also have "\<dots> < 2 ^ 53 * 2 ^ j"
    using assms(3) by simp
  finally have "2 ^ 52 * d * 2 ^ a < 2 ^ 53 * 2 ^ j" .
  moreover have "(2::nat) ^ 52 * d * 2 ^ a = 2 ^ 52 * (d * 2 ^ a)"
    by simp
  moreover have "(2::nat) ^ 53 * 2 ^ j = 2 ^ 52 * (2 * 2 ^ j)"
    by simp
  ultimately have "2 ^ 52 * (d * 2 ^ a) < 2 ^ 52 * (2 * 2 ^ j)"
    by (simp only:)
  then have da: "d * 2 ^ a < 2 * 2 ^ j"
    using mult_less_cancel1 [of "2 ^ 52" "d * 2 ^ a" "2 * 2 ^ j"] by blast
  have a: "a \<le> j"
  proof (rule ccontr)
    assume "\<not> a \<le> j"
    then have "Suc j \<le> a" by simp
    then have "(2::nat) ^ Suc j \<le> 2 ^ a"
      by (intro power_increasing) simp_all
    also have "\<dots> \<le> d * 2 ^ a"
      using assms(1) by simp
    finally show False
      using da by simp
  qed
  have split: "(2::nat) ^ j = 2 ^ (j - a) * 2 ^ a"
    using a by (simp add: power_add [symmetric])
  have "d * 2 ^ a < (2 * 2 ^ (j - a)) * 2 ^ a"
    using da by (simp only: split mult.assoc)
  then have d: "d < 2 * 2 ^ (j - a)"
    using mult_less_cancel2 [of d "2 ^ a" "2 * 2 ^ (j - a)"] by blast
  from float64_round_scaled [OF m a j, of] obtain m' e' where
    scaled: "float64_round (m * 2 ^ a) (2 ^ j) = Finite m' e'"
    and trunc: "float64_trunc m' e' = m div 2 ^ (j - a)"
    by blast
  have "n * 2 ^ j = n * 2 ^ a * 2 ^ (j - a)"
    by (simp only: split mult_ac)
  then have "m div 2 ^ (j - a) = round_half_even (n * 2 ^ a * 2 ^ (j - a)) d div 2 ^ (j - a)"
    by (simp only: m_def)
  also have "\<dots> = n * 2 ^ a div d"
    using assms(1) d by (rule round_half_even_floor)
  finally have floor: "m div 2 ^ (j - a) = n * 2 ^ a div d" .
  have "n * 2 ^ a div d \<le> n * 2 ^ a"
    by simp
  also have "\<dots> < 2 ^ 64"
    using assms(3) by simp
  finally have "n * 2 ^ a div d < 2 ^ 64" .
  then have "uint64_of_float64 impl (Finite m' e') = word_of_nat (n * 2 ^ a div d)"
    by (simp add: trunc floor)
  then have "uint64_of_float64 impl (float64_mul_nat (Finite m (- int j)) (2 ^ a))
               = word_of_nat (n * 2 ^ a div d)"
    by (simp only: float64_mul_nat_scaled scaled)
  with round show ?thesis
    unfolding m_def by blast
qed

subsection \<open>The strings of the form number, unit\<close>

lemma spec_decimal_syntax:
  assumes "spec_decimal s"
  shows "decimal_syntax s"
proof -
  from assms obtain k where
    digits: "list_all is_digit (take k s)"
    and rest: "drop k s = [] \<or> (hd (drop k s) = CHR ''.'' \<and> list_all is_digit (tl (drop k s)))"
    and some: "list_ex is_digit s"
    unfolding spec_decimal_def by blast
  have s: "s = take k s @ drop k s"
    by simp
  have nodot: "filter (\<lambda>c. c = CHR ''.'') xs = []" if "list_all is_digit xs" for xs
    using that by (induction xs) auto
  have dd: "list_all regex_digit_or_dot xs" if "list_all is_digit xs" for xs
    using that by (induction xs) (simp_all add: digit_or_dot)
  have "list_all regex_digit_or_dot (drop k s)
        \<and> length (filter (\<lambda>c. c = CHR ''.'') (drop k s)) \<le> 1"
  proof (cases "drop k s")
    case Nil
    then show ?thesis by simp
  next
    case (Cons c r)
    with rest have "c = CHR ''.''" and "list_all is_digit r"
      by simp_all
    with Cons show ?thesis
      by (simp add: nodot dd digit_or_dot)
  qed
  moreover have "list_all regex_digit_or_dot (take k s)"
    and "filter (\<lambda>c. c = CHR ''.'') (take k s) = []"
    using digits by (simp_all add: nodot dd)
  ultimately have "list_all regex_digit_or_dot (take k s @ drop k s)
    \<and> length (filter (\<lambda>c. c = CHR ''.'') (take k s @ drop k s)) \<le> 1"
    by (simp only: list_all_append filter_append append_Nil simp_thms)
  then have "list_all regex_digit_or_dot s \<and> length (filter (\<lambda>c. c = CHR ''.'') s) \<le> 1"
    by (simp only: append_take_drop_id)
  with some show ?thesis
    unfolding decimal_syntax_def by blast
qed

text \<open>A letter and its upper case.\<close>

lemma upper_letter:
  "ToUpper [c] = ''B'' \<longleftrightarrow> c = CHR ''b'' \<or> c = CHR ''B''"
  "ToUpper [c] = ''K'' \<longleftrightarrow> c = CHR ''k'' \<or> c = CHR ''K''"
  "ToUpper [c] = ''M'' \<longleftrightarrow> c = CHR ''m'' \<or> c = CHR ''M''"
  "ToUpper [c] = ''G'' \<longleftrightarrow> c = CHR ''g'' \<or> c = CHR ''G''"
  "ToUpper [c] = ''T'' \<longleftrightarrow> c = CHR ''t'' \<or> c = CHR ''T''"
  by (auto simp add: ToUpper_def)

lemma map_shape:
  "map f u = [x] \<longleftrightarrow> (\<exists>c. u = [c] \<and> map f [c] = [x])"
  "map f u = [x, y] \<longleftrightarrow> (\<exists>c c'. u = [c, c'] \<and> map f [c] = [x] \<and> map f [c'] = [y])"
  by (auto simp add: map_eq_Cons_conv)

lemma ToUpper_shape:
  "ToUpper u = [] \<longleftrightarrow> u = []"
  "ToUpper u = [x] \<longleftrightarrow> (\<exists>c. u = [c] \<and> ToUpper [c] = [x])"
  "ToUpper u = [x, y] \<longleftrightarrow> (\<exists>c c'. u = [c, c'] \<and> ToUpper [c] = [x] \<and> ToUpper [c'] = [y])"
  unfolding ToUpper_def by (rule map_is_Nil_conv map_shape)+

lemma upper_one:
  assumes "ToUpper u = [x]" and "\<And>c. ToUpper [c] = [x] \<longleftrightarrow> c = l \<or> c = x"
  shows "u = [l] \<or> u = [x]"
proof -
  from assms(1) obtain c where "u = [c]" and "ToUpper [c] = [x]"
    using ToUpper_shape(2) [THEN iffD1] by blast
  with assms(2) show ?thesis
    by blast
qed

lemma upper_two:
  assumes "ToUpper u = [x, CHR ''B'']" and "\<And>c. ToUpper [c] = [x] \<longleftrightarrow> c = l \<or> c = x"
  shows "u = [l, CHR ''b''] \<or> u = [l, CHR ''B''] \<or> u = [x, CHR ''b''] \<or> u = [x, CHR ''B'']"
proof -
  from assms(1) obtain c c' where "u = [c, c']" and "ToUpper [c] = [x]" and "ToUpper [c'] = ''B''"
    using ToUpper_shape(3) [THEN iffD1] by blast
  with assms(2) upper_letter(1) [of c'] show ?thesis
    by blast
qed

lemma binary_units_cases:
  assumes "ToUpper u \<in> set binary_units"
  shows "u \<in> set [[], ''b'', ''B'',
                  ''k'', ''K'', ''kb'', ''kB'', ''Kb'', ''KB'',
                  ''m'', ''M'', ''mb'', ''mB'', ''Mb'', ''MB'',
                  ''g'', ''G'', ''gb'', ''gB'', ''Gb'', ''GB'',
                  ''t'', ''T'', ''tb'', ''tB'', ''Tb'', ''TB'']"
proof -
  from assms consider "ToUpper u = []" | "ToUpper u = ''B''" | "ToUpper u = ''K''"
    | "ToUpper u = ''KB''" | "ToUpper u = ''M''" | "ToUpper u = ''MB''" | "ToUpper u = ''G''"
    | "ToUpper u = ''GB''" | "ToUpper u = ''T''" | "ToUpper u = ''TB''"
    unfolding binary_units_def by fastforce
  then show ?thesis
  proof cases
    case 1
    then have "u = []" by (simp only: ToUpper_shape(1))
    then show ?thesis by simp
  next
    case 2
    from upper_one [OF this upper_letter(1)] show ?thesis by auto
  next
    case 3
    from upper_one [OF this upper_letter(2)] show ?thesis by auto
  next
    case 4
    from upper_two [OF this upper_letter(2)] show ?thesis by auto
  next
    case 5
    from upper_one [OF this upper_letter(3)] show ?thesis by auto
  next
    case 6
    from upper_two [OF this upper_letter(3)] show ?thesis by auto
  next
    case 7
    from upper_one [OF this upper_letter(4)] show ?thesis by auto
  next
    case 8
    from upper_two [OF this upper_letter(4)] show ?thesis by auto
  next
    case 9
    from upper_one [OF this upper_letter(5)] show ?thesis by auto
  next
    case 10
    from upper_two [OF this upper_letter(5)] show ?thesis by auto
  qed
qed


text \<open>Nothing is trimmed from a string that starts with the number and ends with it or the unit.\<close>

lemma TrimLeftOf_id:
  assumes "\<And>w. w \<in> set encs \<Longrightarrow> w \<noteq> [] \<Longrightarrow> hd w \<noteq> c"
  shows "TrimLeftOf encs (c # r) = c # r"
proof -
  have "find (\<lambda>w. w \<noteq> [] \<and> prefix w (c # r)) encs = None"
  proof (rule ccontr)
    assume "find (\<lambda>w. w \<noteq> [] \<and> prefix w (c # r)) encs \<noteq> None"
    then obtain w where "find (\<lambda>w. w \<noteq> [] \<and> prefix w (c # r)) encs = Some w"
      by auto
    then have w: "w \<in> set encs" "w \<noteq> []" "prefix w (c # r)"
      by (auto simp add: find_Some_iff)
    from w(1,2) have "hd w \<noteq> c"
      by (rule assms)
    moreover from w(2,3) have "hd w = c"
      by (cases w) simp_all
    ultimately show False
      by simp
  qed
  then show ?thesis
    by (simp add: TrimLeftOf.simps [of encs "c # r"])
qed

lemma space_starts:
  "\<forall>w \<in> set unicode_space_encodings. w \<noteq> [] \<and> hd w \<notin> set ''0123456789.''"
  by (simp add: unicode_space_encodings_def)

lemma space_ends:
  "\<forall>w \<in> set (map rev unicode_space_encodings).
     w \<noteq> [] \<and> hd w \<notin> set ''0123456789.bBkKmMgGtT''"
  by (simp add: unicode_space_encodings_def)

lemma TrimSpace_id:
  assumes "s \<noteq> []" and "hd s \<in> set ''0123456789.''"
    and "last s \<in> set ''0123456789.bBkKmMgGtT''"
  shows "TrimSpace s = s"
proof -
  obtain c r where s: "s = c # r"
    using assms(1) by (cases s) simp_all
  have c: "c \<in> set ''0123456789.''"
    using assms(2) by (simp only: s list.sel)
  have "TrimLeftOf unicode_space_encodings (c # r) = c # r"
  proof (rule TrimLeftOf_id)
    fix w
    assume "w \<in> set unicode_space_encodings"
    with space_starts have "hd w \<notin> set ''0123456789.''"
      by blast
    with c show "hd w \<noteq> c"
      by blast
  qed
  then have left: "TrimLeftOf unicode_space_encodings s = s"
    by (simp only: s)
  have "rev s \<noteq> []"
    using assms(1) by simp
  then obtain c' r' where rs: "rev s = c' # r'"
    by (cases "rev s") simp_all
  have "hd (rev s) = last s"
    using assms(1) by (simp add: hd_rev)
  then have "c' = last s"
    by (simp only: rs list.sel)
  with assms(3) have c': "c' \<in> set ''0123456789.bBkKmMgGtT''"
    by (simp only:)
  have "TrimLeftOf (map rev unicode_space_encodings) (c' # r') = c' # r'"
  proof (rule TrimLeftOf_id)
    fix w
    assume "w \<in> set (map rev unicode_space_encodings)"
    with space_ends have "hd w \<notin> set ''0123456789.bBkKmMgGtT''"
      by blast
    with c' show "hd w \<noteq> c'"
      by blast
  qed
  then have "TrimLeftOf (map rev unicode_space_encodings) (rev s) = rev s"
    by (simp only: rs)
  then show ?thesis
    by (simp only: TrimSpace_def left rev_rev_ident)
qed

text \<open>What the pattern and the switch make of each unit.\<close>

lemma unit_forms_pattern:
  "\<forall>u \<in> set unit_forms.
     takeWhile regex_digit_or_dot u = [] \<and> dropWhile regex_digit_or_dot u = u
     \<and> dropWhile regex_space u = u \<and> u \<in> set regex_unit_group
     \<and> (u = [] \<or> last u \<in> set ''bBkKmMgGtT'')"
  by (simp add: unit_forms_def regex_digit_or_dot_def regex_space_def regex_unit_group_def
        regex_unit_letters_def kelvin_sign_def)

lemma unit_forms_upper:
  "map ToUpper unit_forms =
     [[], ''B'', ''B'',
      ''K'', ''K'', ''KB'', ''KB'', ''KB'', ''KB'',
      ''M'', ''M'', ''MB'', ''MB'', ''MB'', ''MB'',
      ''G'', ''G'', ''GB'', ''GB'', ''GB'', ''GB'',
      ''T'', ''T'', ''TB'', ''TB'', ''TB'', ''TB'']"
  by (simp add: unit_forms_def ToUpper_def)


lemma unit_forms_multiplier:
  "\<forall>u \<in> set unit_forms.
     (if prefix ''T'' (ToUpper u) then f (1024 * 1024 * 1024 * 1024)
      else if prefix ''G'' (ToUpper u) then f (1024 * 1024 * 1024)
      else if prefix ''M'' (ToUpper u) then f (1024 * 1024)
      else if prefix ''K'' (ToUpper u) then f 1024
      else x)
     = (if spec_multiplier u = 1 then x else f (spec_multiplier u))
     \<and> (spec_multiplier u = 2 ^ 0 \<or> spec_multiplier u = 2 ^ 10 \<or> spec_multiplier u = 2 ^ 20
          \<or> spec_multiplier u = 2 ^ 30 \<or> spec_multiplier u = 2 ^ 40)"
  by (simp add: unit_forms_def spec_multiplier_def ToUpper_def)

lemma parseSize_form:
  assumes "spec_decimal num" and "ToUpper u \<in> set binary_units"
  shows "parseSize impl (num @ u) =
     (case ParseFloat num of
        None \<Rightarrow> Inl (InvalidSizeNumber num)
      | Some size0 \<Rightarrow>
          Inr (uint64_of_float64 impl
                 (if spec_multiplier u = 1 then size0
                  else float64_mul_nat size0 (spec_multiplier u))))"
proof -
  have u: "u \<in> set unit_forms"
    using binary_units_cases [OF assms(2)] by (simp only: unit_forms_def)
  note pattern = unit_forms_pattern [rule_format, OF u]
  note switch = unit_forms_multiplier [rule_format, OF u, THEN conjunct1]
  from spec_decimal_syntax [OF assms(1)] have all: "list_all regex_digit_or_dot num"
    and some: "list_ex is_digit num"
    by (simp_all add: decimal_syntax_def)
  from some have nonempty: "num \<noteq> []"
    by auto
  have chars: "\<forall>c \<in> set num. c \<in> set ''0123456789.''"
    using all by (simp add: list_all_iff regex_digit_or_dot_def)
  have "hd num \<in> set num" and "last num \<in> set num"
    using nonempty by simp_all
  with chars have first: "hd num \<in> set ''0123456789.''"
    and final: "last num \<in> set ''0123456789.''"
    by blast+
  have "hd (num @ u) = hd num"
    using nonempty by simp
  with first have hd: "hd (num @ u) \<in> set ''0123456789.''"
    by (simp only:)
  have last: "last (num @ u) \<in> set ''0123456789.bBkKmMgGtT''"
  proof (cases "u = []")
    case True
    with final show ?thesis by auto
  next
    case False
    with pattern have "last u \<in> set ''bBkKmMgGtT''"
      by blast
    moreover have "last (num @ u) = last u"
      using False by simp
    ultimately show ?thesis
      by auto
  qed
  have trim: "TrimSpace (num @ u) = num @ u"
    using nonempty hd last by (intro TrimSpace_id) simp_all
  have "takeWhile regex_digit_or_dot (num @ u) = num @ takeWhile regex_digit_or_dot u"
    using all by (intro takeWhile_append2) (simp add: list_all_iff)
  then have taken: "takeWhile regex_digit_or_dot (num @ u) = num"
    using pattern by simp
  have "dropWhile regex_digit_or_dot (num @ u) = dropWhile regex_digit_or_dot u"
    using all by (intro dropWhile_append2) (simp add: list_all_iff)
  then have dropped: "dropWhile regex_space (dropWhile regex_digit_or_dot (num @ u)) = u"
    using pattern by simp
  have found: "FindStringSubmatch (num @ u) = Some (num, u)"
    using nonempty pattern by (simp add: FindStringSubmatch_def Let_def taken dropped)
  show ?thesis
    unfolding parseSize_def trim found Let_def
    by (cases "ParseFloat num") (simp_all only: option.case prod.case switch)
qed

lemma ten_power_bound: "s \<le> 300 \<Longrightarrow> 0 < (10::nat) ^ s \<and> (10::nat) ^ s < 2 ^ 1000"
proof -
  assume "s \<le> 300"
  then have "(10::nat) ^ s \<le> 10 ^ 300"
    by (intro power_increasing) simp_all
  also have "(10::nat) ^ 300 = (10 ^ 3) ^ 100"
    by (simp only: power_mult [symmetric]) simp
  also have "\<dots> < (2 ^ 10) ^ 100"
    by (intro power_strict_mono) simp_all
  also have "\<dots> = (2::nat) ^ 1000"
    by (simp only: power_mult [symmetric]) simp
  finally show ?thesis
    by simp
qed

text \<open>
  The claim C2 as stated fails: the number is parsed into a float64, which has 53
  significant bits, before it is multiplied and truncated.  \<open>2 ^ 53 + 1\<close> bytes are read
  as \<open>2 ^ 53\<close>.
\<close>

theorem parseSize_rounds:
  "spec_size_form ''9007199254740993''
   \<and> parseSize saturating ''9007199254740993'' = Inr 9007199254740992"
proof
  have "list_all is_digit (take 16 ''9007199254740993'')"
    by (simp add: is_digit_def)
  then have "spec_decimal (take 16 ''9007199254740993'')"
    unfolding spec_decimal_def by (intro bexI [of _ 16]) (simp_all add: is_digit_def)
  then show "spec_size_form ''9007199254740993''"
    unfolding spec_size_form_def
    by (intro bexI [of _ 16]) (simp_all add: spec_units_def ToUpper_def)
  show "parseSize saturating ''9007199254740993'' = Inr 9007199254740992"
    by (simp add: parseSize_eval float64_eval)
qed

text \<open>
  C2, amended.  For a string that is a decimal number followed at once by a unit among B,
  K, M, G and T in either case, a B after the letter or no unit at all: \<open>parseSize\<close>
  returns the number error when the number is too large for a float64; otherwise it
  rounds the number to the nearest float64, multiplies by the multiplier of the unit (1,
  \<open>1024\<close>, \<open>1024 ^ 2\<close>, \<open>1024 ^ 3\<close>, \<open>1024 ^ 4\<close>), in float64 again, and converts to \<^verbatim>\<open>uint64\<close>, which
  truncates.  When the digits of the number, read as one integer, times the multiplier
  stay below \<open>2 ^ 53\<close>, and the number has at most 300 decimals, the result is the number
  times the multiplier truncated toward zero, exactly.
\<close>

theorem parseSize_value:
  "spec_decimal num \<longrightarrow> ToUpper u \<in> set binary_units \<longrightarrow>
     parseSize impl (num @ u) =
       (case float64_round (decimal_mantissa num) (10 ^ decimal_scale num) of
          PosInf \<Rightarrow> Inl (InvalidSizeNumber num)
        | Finite m e \<Rightarrow>
            Inr (uint64_of_float64 impl
                   (if spec_multiplier u = 1 then Finite m e
                    else float64_mul_nat (Finite m e) (spec_multiplier u))))
     \<and> (decimal_mantissa num * spec_multiplier u < 2 ^ 53 \<longrightarrow> decimal_scale num \<le> 300
          \<longrightarrow> parseSize impl (num @ u)
              = Inr (word_of_nat (decimal_mantissa num * spec_multiplier u
                                  div 10 ^ decimal_scale num)))"
proof (intro impI conjI)
  assume num: "spec_decimal num" and unit: "ToUpper u \<in> set binary_units"
  have valid: "decimal_syntax num"
    using num by (rule spec_decimal_syntax)
  have form: "parseSize impl (num @ u) =
       (case float64_round (decimal_mantissa num) (10 ^ decimal_scale num) of
          PosInf \<Rightarrow> Inl (InvalidSizeNumber num)
        | Finite m e \<Rightarrow>
            Inr (uint64_of_float64 impl
                   (if spec_multiplier u = 1 then Finite m e
                    else float64_mul_nat (Finite m e) (spec_multiplier u))))"
    unfolding parseSize_form [OF num unit] ParseFloat_def
    by (cases "float64_round (decimal_mantissa num) (10 ^ decimal_scale num)")
       (simp_all add: valid)
  show "parseSize impl (num @ u) =
       (case float64_round (decimal_mantissa num) (10 ^ decimal_scale num) of
          PosInf \<Rightarrow> Inl (InvalidSizeNumber num)
        | Finite m e \<Rightarrow>
            Inr (uint64_of_float64 impl
                   (if spec_multiplier u = 1 then Finite m e
                    else float64_mul_nat (Finite m e) (spec_multiplier u))))"
    by (rule form)
  assume small: "decimal_mantissa num * spec_multiplier u < 2 ^ 53"
    and scale: "decimal_scale num \<le> 300"
  define n d where "n = decimal_mantissa num" and "d = (10::nat) ^ decimal_scale num"
  from ten_power_bound [OF scale] have d: "0 < d" "d < 2 ^ 1000"
    by (simp_all add: d_def)
  have "u \<in> set unit_forms"
    using binary_units_cases [OF unit] by (simp only: unit_forms_def)
  from unit_forms_multiplier [rule_format, OF this, THEN conjunct2]
  obtain a where a: "spec_multiplier u = 2 ^ a"
    by blast
  show "parseSize impl (num @ u)
          = Inr (word_of_nat (decimal_mantissa num * spec_multiplier u
                              div 10 ^ decimal_scale num))"
  proof (cases "a = 0")
    case True
    with small a have "n < 2 ^ 53"
      by (simp add: n_def)
    from parse_exact [OF d this, of impl] obtain m e where
      "float64_round n d = Finite m e"
      and "uint64_of_float64 impl (Finite m e) = word_of_nat (n div d)"
      by blast
    with True a show ?thesis
      unfolding form by (simp add: n_def d_def)
  next
    case False
    from small a have "n * 2 ^ a < 2 ^ 53"
      by (simp add: n_def)
    from parse_scale_exact [OF d this, of impl] obtain m e where
      "float64_round n d = Finite m e"
      and "uint64_of_float64 impl (float64_mul_nat (Finite m e) (2 ^ a))
             = word_of_nat (n * 2 ^ a div d)"
      by blast
    moreover have "spec_multiplier u \<noteq> 1"
      using False by (simp add: a)
    ultimately show ?thesis
      unfolding form by (simp add: n_def d_def a)
  qed
qed

lemma example_number: "spec_decimal ''1.5''"
  unfolding spec_decimal_def by (intro bexI [of _ 1]) (simp_all add: is_digit_def)

theorem parseSize_value_witness:
  "spec_decimal ''1.5'' \<and> ToUpper ''M'' \<in> set binary_units
   \<and> decimal_mantissa ''1.5'' * spec_multiplier ''M'' < 2 ^ 53 \<and> decimal_scale ''1.5'' \<le> 300
   \<and> parseSize saturating ''1.5M'' = Inr 1572864"
proof -
  have unit: "ToUpper ''M'' \<in> set binary_units"
    by (simp add: ToUpper_def binary_units_def)
  have digits: "decimal_mantissa ''1.5'' = 15" and scale: "decimal_scale ''1.5'' = 1"
    and mult: "spec_multiplier ''M'' = 1048576"
    by (simp_all add: decimal_mantissa_def decimal_scale_def digits_value_def digit_value_def
          is_digit_def spec_multiplier_def ToUpper_def)
  have small: "decimal_mantissa ''1.5'' * spec_multiplier ''M'' < 2 ^ 53"
    and few: "decimal_scale ''1.5'' \<le> 300"
    by (simp_all add: digits scale mult)
  note facts = parseSize_value [of "''1.5''" "''M''" saturating, rule_format,
      OF example_number unit]
  from conjunct2 [OF facts, rule_format, OF small few]
  have "parseSize saturating (''1.5'' @ ''M'')
          = Inr (word_of_nat (decimal_mantissa ''1.5'' * spec_multiplier ''M''
                              div 10 ^ decimal_scale ''1.5''))" .
  then have "parseSize saturating ''1.5M'' = Inr 1572864"
    by (simp add: digits scale mult)
  with example_number unit small few show ?thesis
    by (simp only: simp_thms)
qed

text \<open>
  The unit P.  The pattern accepts the letter and the usage text lists it, but the switch
  of \<open>parseSize\<close> has no case for it: the number is taken as bytes.
\<close>

lemma parseSize_peta: "parseSize saturating ''1P'' = Inr 1"
  by (simp add: parseSize_eval float64_eval)

end
